theory Spec2Isabelle
  imports Main "HOL-Library.AList"
begin

section \<open>The worker launcher of catalyst/utils/scripts.py\<close>

text \<open>
  \<^verbatim>\<open>distributed_cmd_run\<close> only orchestrates calls into collaborators: the callback
  \<^verbatim>\<open>worker_fn\<close>, \<^verbatim>\<open>torch.cuda\<close>, \<^verbatim>\<open>torch.distributed\<close> and \<^verbatim>\<open>subprocess\<close>. The model
  runs the launcher against a \<^emph>\<open>world\<close> that fixes what every collaborator answers, and
  returns the sequence of calls the launcher made (its trace), the process handles it
  tracked in \<^verbatim>\<open>workers\<close>, and whether it returned or let an exception through.
\<close>

subsection \<open>Data\<close>

text \<open>A Python exception, identified by its text.\<close>

datatype exn = Exn string

text \<open>How a call ends: it returns, or it raises.\<close>

datatype result = Returned | Raised exn

text \<open>
  The dictionary \<^verbatim>\<open>get_distributed_params()\<close> returns, restricted to the three keys the
  launcher reads. \<^verbatim>\<open>local_rank\<close> is \<^verbatim>\<open>None\<close> in the top-level process.
\<close>

record distributed_params =
  local_rank :: "int option"
  world_size :: int
  start_rank :: int

text \<open>
  A \<^verbatim>\<open>subprocess.Popen\<close> object. The launcher creates at most one per local rank, so the
  handle is the local rank it was created for.
\<close>

type_synonym proc = nat

text \<open>
  The collaborators. \<^verbatim>\<open>get_distributed_params\<close> and \<^verbatim>\<open>get_distributed_env\<close> live in
  \<^verbatim>\<open>catalyst/utils/distributed.py\<close> and are taken as given, as are \<^verbatim>\<open>sys.executable\<close>,
  \<^verbatim>\<open>sys.argv\<close> and \<^verbatim>\<open>torch.cuda.device_count()\<close>. Each of the remaining fields tells how
  one call ends:
  \<^item> \<open>worker_fn a\<close>: the callback applied to the arguments \<open>a\<close> (positional and keyword
    arguments together);
  \<^item> \<open>set_device n\<close>: \<^verbatim>\<open>torch.cuda.set_device(n)\<close>;
  \<^item> \<open>init_process_group b m\<close>: \<^verbatim>\<open>torch.distributed.init_process_group(backend=b,
    init_method=m)\<close>;
  \<^item> \<open>popen i\<close>: the \<^verbatim>\<open>subprocess.Popen\<close> call made for local rank \<open>i\<close>; when it returns,
    the child process exists and its handle is \<open>i\<close>;
  \<^item> \<open>wait p\<close>: \<^verbatim>\<open>p.wait()\<close>, which raises (\<open>Inl\<close>) or returns the exit status of the
    child (\<open>Inr\<close>).
  \<^verbatim>\<open>p.kill()\<close> has no field: \<^verbatim>\<open>Popen.kill\<close> signals a child that has not been reaped and
  does nothing for one that has, and returns \<^verbatim>\<open>None\<close> in both cases.
\<close>

record ('a, 'env) world =
  get_distributed_params :: distributed_params
  get_distributed_env :: "int \<Rightarrow> int \<Rightarrow> int \<Rightarrow> 'env"
  executable :: string
  argv :: "string list"
  device_count :: nat
  worker_fn :: "'a \<Rightarrow> result"
  set_device :: "int \<Rightarrow> result"
  init_process_group :: "string \<Rightarrow> string \<Rightarrow> result"
  popen :: "nat \<Rightarrow> result"
  wait :: "proc \<Rightarrow> exn + int"

text \<open>The calls the launcher makes, in the trace in the order it makes them.\<close>

datatype ('a, 'env) event =
    WorkerFn 'a
  | SetDevice int
  | InitProcessGroup string string
  | Popen "string list" 'env
  | Wait proc
  | Kill proc

fun is_Popen :: "('a, 'env) event \<Rightarrow> bool" where
  "is_Popen (Popen cmd env) = True"
| "is_Popen ev = False"

fun is_Kill :: "('a, 'env) event \<Rightarrow> bool" where
  "is_Kill (Kill p) = True"
| "is_Kill ev = False"

fun is_WorkerFn :: "('a, 'env) event \<Rightarrow> bool" where
  "is_WorkerFn (WorkerFn a) = True"
| "is_WorkerFn ev = False"

text \<open>
  What one call of the launcher did: the calls it made, the handles in \<^verbatim>\<open>workers\<close> when
  it finished (empty in the branches that never create the list), and how it ended.
\<close>

record ('a, 'env) run =
  trace :: "('a, 'env) event list"
  workers :: "proc list"
  outcome :: result

subsection \<open>The launcher\<close>

text \<open>
  The first loop of the \<^verbatim>\<open>try\<close> block, over the local ranks still to do, with the
  handles appended so far:
  \<^verbatim>\<open>
  for local_rank in range(torch.cuda.device_count()):
      rank = distributed_params["start_rank"] + local_rank
      env = get_distributed_env(local_rank, rank, world_size)
      cmd = [sys.executable] + sys.argv.copy()
      workers.append(subprocess.Popen(cmd, env=env))
  \<close>
  It yields the calls made, the handles appended and the exception that ended it, if any.
\<close>

fun spawn_loop ::
  "('a, 'env) world \<Rightarrow> nat list \<Rightarrow> proc list \<Rightarrow> ('a, 'env) event list \<times> proc list \<times> result"
where
  "spawn_loop w [] ws = ([], ws, Returned)"
| "spawn_loop w (i # is) ws =
     (let rank = start_rank (get_distributed_params w) + int i;
          env = get_distributed_env w (int i) rank (world_size (get_distributed_params w));
          cmd = [executable w] @ argv w
      in case popen w i of
           Raised e \<Rightarrow> ([Popen cmd env], ws, Raised e)
         | Returned \<Rightarrow>
             (case spawn_loop w is (ws @ [i]) of
                (tr, ws', r) \<Rightarrow> (Popen cmd env # tr, ws', r)))"

text \<open>
  The second loop of the \<^verbatim>\<open>try\<close> block; the exit status \<^verbatim>\<open>wait\<close> returns is dropped:
  \<^verbatim>\<open>
  for worker in workers:
      worker.wait()
  \<close>
\<close>

fun wait_loop :: "('a, 'env) world \<Rightarrow> proc list \<Rightarrow> ('a, 'env) event list \<times> result" where
  "wait_loop w [] = ([], Returned)"
| "wait_loop w (p # ps) =
     (case wait w p of
        Inl e \<Rightarrow> ([Wait p], Raised e)
      | Inr status \<Rightarrow> (case wait_loop w ps of (tr, r) \<Rightarrow> (Wait p # tr, r)))"

text \<open>
  The \<^verbatim>\<open>finally\<close> block:
  \<^verbatim>\<open>
  for worker in workers:
      worker.kill()
  \<close>
\<close>

definition kill_loop :: "proc list \<Rightarrow> ('a, 'env) event list" where
  "kill_loop ws = map Kill ws"

text \<open>
  The \<^verbatim>\<open>try\<close> block: the second loop runs only when the first one ended without an
  exception.
\<close>

definition try_block :: "('a, 'env) world \<Rightarrow> ('a, 'env) event list \<times> proc list \<times> result" where
  "try_block w =
     (case spawn_loop w [0..<device_count w] [] of
        (tr1, ws, Raised e) \<Rightarrow> (tr1, ws, Raised e)
      | (tr1, ws, Returned) \<Rightarrow>
          (case wait_loop w ws of (tr2, r) \<Rightarrow> (tr1 @ tr2, ws, r)))"

text \<open>
  The \<^verbatim>\<open>else\<close> branch: \<^verbatim>\<open>workers = []\<close>, then \<^verbatim>\<open>try\<close> and \<^verbatim>\<open>finally\<close>. The \<^verbatim>\<open>finally\<close> block
  runs however the \<^verbatim>\<open>try\<close> block ended, and an exception of the \<^verbatim>\<open>try\<close> block goes on
  to the caller after it.
\<close>

definition spawn_branch :: "('a, 'env) world \<Rightarrow> ('a, 'env) run" where
  "spawn_branch w =
     (case try_block w of
        (tr, ws, r) \<Rightarrow> \<lparr>trace = tr @ kill_loop ws, workers = ws, outcome = r\<rparr>)"

text \<open>
  The second branch, for a process that is itself a spawned worker:
  \<^verbatim>\<open>
  torch.cuda.set_device(int(local_rank))
  torch.distributed.init_process_group(backend="nccl", init_method="env://")
  worker_fn(*args, **kwargs)
  \<close>
\<close>

definition worker_branch :: "('a, 'env) world \<Rightarrow> int \<Rightarrow> 'a \<Rightarrow> ('a, 'env) run" where
  "worker_branch w lr args =
     (case set_device w lr of
        Raised e \<Rightarrow> \<lparr>trace = [SetDevice lr], workers = [], outcome = Raised e\<rparr>
      | Returned \<Rightarrow>
          (case init_process_group w ''nccl'' ''env://'' of
             Raised e \<Rightarrow>
               \<lparr>trace = [SetDevice lr, InitProcessGroup ''nccl'' ''env://''],
                workers = [], outcome = Raised e\<rparr>
           | Returned \<Rightarrow>
               \<lparr>trace = [SetDevice lr, InitProcessGroup ''nccl'' ''env://'', WorkerFn args],
                workers = [], outcome = worker_fn w args\<rparr>))"

text \<open>
  \<^verbatim>\<open>distributed_cmd_run(distributed, worker_fn, *args, **kwargs)\<close>:
  \<^verbatim>\<open>
  distributed_params = get_distributed_params()
  local_rank = distributed_params["local_rank"]
  world_size = distributed_params["world_size"]
  if not distributed or world_size <= 1:
      worker_fn(*args, **kwargs)
  elif local_rank is not None:
      ...
  else:
      ...
  \<close>
\<close>

definition distributed_cmd_run :: "('a, 'env) world \<Rightarrow> bool \<Rightarrow> 'a \<Rightarrow> ('a, 'env) run" where
  "distributed_cmd_run w distributed args =
     (let distributed_params = get_distributed_params w;
          lr = local_rank distributed_params;
          ws = world_size distributed_params
      in if \<not> distributed \<or> ws \<le> 1 then
           \<lparr>trace = [WorkerFn args], workers = [], outcome = worker_fn w args\<rparr>
         else (case lr of
                 Some n \<Rightarrow> worker_branch w n args
               | None \<Rightarrow> spawn_branch w))"

subsection \<open>The launcher in a process with state\<close>

text \<open>
  A call of the launcher happens in a process whose state outlives the call: the
  environment variables that \<^verbatim>\<open>get_distributed_params\<close> reads, the device the process is
  bound to, its default process group, its child processes, and whatever the callback
  keeps. The body of \<^verbatim>\<open>distributed_cmd_run\<close> assigns local names only
  (\<^verbatim>\<open>distributed_params\<close>, \<^verbatim>\<open>local_rank\<close>, \<^verbatim>\<open>world_size\<close>, \<^verbatim>\<open>workers\<close>, \<^verbatim>\<open>rank\<close>, \<^verbatim>\<open>env\<close>,
  \<^verbatim>\<open>cmd\<close>, \<^verbatim>\<open>worker\<close>): it has no \<^verbatim>\<open>global\<close> statement, no attribute assignment and no
  default argument. So the launcher reaches the state of the process through the calls
  it makes and through nothing else.

  Here every collaborator takes the state of the process and returns its answer
  together with the new state; \<^verbatim>\<open>sys.executable\<close> and \<^verbatim>\<open>sys.argv\<close> are read from the state;
  \<^verbatim>\<open>subprocess.Popen\<close> returns the handle of the child it made. The type of the state is
  left open, so that what holds of every process holds whatever the collaborators keep
  and change.
\<close>

record ('a, 'env, 's) process =
  in_get_distributed_params :: "'s \<Rightarrow> distributed_params \<times> 's"
  in_get_distributed_env :: "int \<Rightarrow> int \<Rightarrow> int \<Rightarrow> 's \<Rightarrow> 'env \<times> 's"
  in_executable :: "'s \<Rightarrow> string"
  in_argv :: "'s \<Rightarrow> string list"
  in_device_count :: "'s \<Rightarrow> nat \<times> 's"
  in_worker_fn :: "'a \<Rightarrow> 's \<Rightarrow> result \<times> 's"
  in_set_device :: "int \<Rightarrow> 's \<Rightarrow> result \<times> 's"
  in_init_process_group :: "string \<Rightarrow> string \<Rightarrow> 's \<Rightarrow> result \<times> 's"
  in_popen :: "string list \<Rightarrow> 'env \<Rightarrow> 's \<Rightarrow> (exn + proc) \<times> 's"
  in_wait :: "proc \<Rightarrow> 's \<Rightarrow> (exn + int) \<times> 's"
  in_kill :: "proc \<Rightarrow> 's \<Rightarrow> 's"

text \<open>
  The launcher of the previous subsection once more, statement by statement, with the
  state passed from each call to the next. First the two loops of the \<^verbatim>\<open>try\<close> block and
  the loop of the \<^verbatim>\<open>finally\<close> block.
\<close>

fun spawn_loop_in ::
  "('a, 'env, 's) process \<Rightarrow> distributed_params \<Rightarrow> nat list \<Rightarrow> proc list \<Rightarrow> 's \<Rightarrow>
     (('a, 'env) event list \<times> proc list \<times> result) \<times> 's"
where
  "spawn_loop_in P distributed_params [] ws s = (([], ws, Returned), s)"
| "spawn_loop_in P distributed_params (i # is) ws s =
     (let rank = start_rank distributed_params + int i
      in case in_get_distributed_env P (int i) rank (world_size distributed_params) s of
           (env, s1) \<Rightarrow>
             (let cmd = [in_executable P s1] @ in_argv P s1
              in case in_popen P cmd env s1 of
                   (Inl e, s2) \<Rightarrow> (([Popen cmd env], ws, Raised e), s2)
                 | (Inr p, s2) \<Rightarrow>
                     (case spawn_loop_in P distributed_params is (ws @ [p]) s2 of
                        ((tr, ws', r), s3) \<Rightarrow> ((Popen cmd env # tr, ws', r), s3))))"

fun wait_loop_in ::
  "('a, 'env, 's) process \<Rightarrow> proc list \<Rightarrow> 's \<Rightarrow> (('a, 'env) event list \<times> result) \<times> 's"
where
  "wait_loop_in P [] s = (([], Returned), s)"
| "wait_loop_in P (p # ps) s =
     (case in_wait P p s of
        (Inl e, s1) \<Rightarrow> (([Wait p], Raised e), s1)
      | (Inr status, s1) \<Rightarrow>
          (case wait_loop_in P ps s1 of ((tr, r), s2) \<Rightarrow> ((Wait p # tr, r), s2)))"

fun kill_loop_in ::
  "('a, 'env, 's) process \<Rightarrow> proc list \<Rightarrow> 's \<Rightarrow> ('a, 'env) event list \<times> 's"
where
  "kill_loop_in P [] s = ([], s)"
| "kill_loop_in P (p # ps) s =
     (case kill_loop_in P ps (in_kill P p s) of (tr, s') \<Rightarrow> (Kill p # tr, s'))"

text \<open>
  The \<^verbatim>\<open>try\<close> block, which starts with the call \<^verbatim>\<open>torch.cuda.device_count()\<close>, and the
  \<^verbatim>\<open>else\<close> branch with its \<^verbatim>\<open>finally\<close>.
\<close>

definition try_block_in ::
  "('a, 'env, 's) process \<Rightarrow> distributed_params \<Rightarrow> 's \<Rightarrow>
     (('a, 'env) event list \<times> proc list \<times> result) \<times> 's"
where
  "try_block_in P distributed_params s =
     (case in_device_count P s of
        (n, s0) \<Rightarrow>
          (case spawn_loop_in P distributed_params [0..<n] [] s0 of
             ((tr1, ws, Raised e), s1) \<Rightarrow> ((tr1, ws, Raised e), s1)
           | ((tr1, ws, Returned), s1) \<Rightarrow>
               (case wait_loop_in P ws s1 of ((tr2, r), s2) \<Rightarrow> ((tr1 @ tr2, ws, r), s2))))"

definition spawn_branch_in ::
  "('a, 'env, 's) process \<Rightarrow> distributed_params \<Rightarrow> 's \<Rightarrow> ('a, 'env) run \<times> 's"
where
  "spawn_branch_in P distributed_params s =
     (case try_block_in P distributed_params s of
        ((tr, ws, r), s1) \<Rightarrow>
          (case kill_loop_in P ws s1 of
             (tr', s2) \<Rightarrow> (\<lparr>trace = tr @ tr', workers = ws, outcome = r\<rparr>, s2)))"

text \<open>The branch of a spawned worker.\<close>

definition worker_branch_in ::
  "('a, 'env, 's) process \<Rightarrow> int \<Rightarrow> 'a \<Rightarrow> 's \<Rightarrow> ('a, 'env) run \<times> 's"
where
  "worker_branch_in P lr args s =
     (case in_set_device P lr s of
        (Raised e, s1) \<Rightarrow> (\<lparr>trace = [SetDevice lr], workers = [], outcome = Raised e\<rparr>, s1)
      | (Returned, s1) \<Rightarrow>
          (case in_init_process_group P ''nccl'' ''env://'' s1 of
             (Raised e, s2) \<Rightarrow>
               (\<lparr>trace = [SetDevice lr, InitProcessGroup ''nccl'' ''env://''],
                 workers = [], outcome = Raised e\<rparr>, s2)
           | (Returned, s2) \<Rightarrow>
               (case in_worker_fn P args s2 of
                  (r, s3) \<Rightarrow>
                    (\<lparr>trace = [SetDevice lr, InitProcessGroup ''nccl'' ''env://'', WorkerFn args],
                      workers = [], outcome = r\<rparr>, s3))))"

text \<open>
  \<^verbatim>\<open>distributed_cmd_run(distributed, worker_fn, *args, **kwargs)\<close> called in the state \<open>s\<close>:
  what the call did, and the state it leaves. The call of \<^verbatim>\<open>get_distributed_params()\<close>
  comes first, in every branch.
\<close>

definition distributed_cmd_run_in ::
  "('a, 'env, 's) process \<Rightarrow> 's \<Rightarrow> bool \<Rightarrow> 'a \<Rightarrow> ('a, 'env) run \<times> 's"
where
  "distributed_cmd_run_in P s distributed args =
     (case in_get_distributed_params P s of
        (distributed_params, s0) \<Rightarrow>
          (let lr = local_rank distributed_params;
               ws = world_size distributed_params
           in if \<not> distributed \<or> ws \<le> 1 then
                (case in_worker_fn P args s0 of
                   (r, s1) \<Rightarrow> (\<lparr>trace = [WorkerFn args], workers = [], outcome = r\<rparr>, s1))
              else (case lr of
                      Some n \<Rightarrow> worker_branch_in P n args s0
                    | None \<Rightarrow> spawn_branch_in P distributed_params s0)))"

text \<open>
  A world as a process: the collaborators answer as the world says and keep no state
  but the number of \<^verbatim>\<open>Popen\<close> calls made, which numbers the handles.
\<close>

definition process_of :: "('a, 'env) world \<Rightarrow> ('a, 'env, nat) process" where
  "process_of w =
     \<lparr>in_get_distributed_params = (\<lambda>s. (get_distributed_params w, s)),
      in_get_distributed_env = (\<lambda>lr rk ws s. (get_distributed_env w lr rk ws, s)),
      in_executable = (\<lambda>s. executable w),
      in_argv = (\<lambda>s. argv w),
      in_device_count = (\<lambda>s. (device_count w, s)),
      in_worker_fn = (\<lambda>a s. (worker_fn w a, s)),
      in_set_device = (\<lambda>n s. (set_device w n, s)),
      in_init_process_group = (\<lambda>b m s. (init_process_group w b m, s)),
      in_popen = (\<lambda>cmd env s. (case popen w s of Raised e \<Rightarrow> Inl e | Returned \<Rightarrow> Inr s, Suc s)),
      in_wait = (\<lambda>p s. (wait w p, s)),
      in_kill = (\<lambda>p s. s)\<rparr>"

subsection \<open>A concrete world\<close>

text \<open>
  The top-level process on a node with two devices whose ranks start at 4: every
  collaborator succeeds and both workers exit with status 0. The instances below are
  variations of it.
\<close>

definition demo_world :: "(string list, (string \<times> int) list) world" where
  "demo_world =
     \<lparr>get_distributed_params = \<lparr>local_rank = None, world_size = 2, start_rank = 4\<rparr>,
      get_distributed_env =
        (\<lambda>lr rk ws. [(''LOCAL_RANK'', lr), (''RANK'', rk), (''WORLD_SIZE'', ws)]),
      executable = ''/usr/bin/python'',
      argv = [''train.py'', ''--distributed''],
      device_count = 2,
      worker_fn = (\<lambda>a. Returned),
      set_device = (\<lambda>n. Returned),
      init_process_group = (\<lambda>b m. Returned),
      popen = (\<lambda>i. Returned),
      wait = (\<lambda>p. Inr 0)\<rparr>"

text \<open>
  A process whose state is the distributed parameters that \<^verbatim>\<open>get_distributed_params\<close>
  finds, and whose callback changes them: after it has run, the process looks like a
  spawned worker of rank 3 in a world of 8.
\<close>

definition env_process :: "(string list, (string \<times> int) list, distributed_params) process" where
  "env_process =
     \<lparr>in_get_distributed_params = (\<lambda>s. (s, s)),
      in_get_distributed_env =
        (\<lambda>lr rk ws s. ([(''LOCAL_RANK'', lr), (''RANK'', rk), (''WORLD_SIZE'', ws)], s)),
      in_executable = (\<lambda>s. ''/usr/bin/python''),
      in_argv = (\<lambda>s. [''train.py'']),
      in_device_count = (\<lambda>s. (2, s)),
      in_worker_fn = (\<lambda>a s. (Returned, s\<lparr>local_rank := Some 3, world_size := 8\<rparr>)),
      in_set_device = (\<lambda>n s. (Returned, s)),
      in_init_process_group = (\<lambda>b m s. (Returned, s)),
      in_popen = (\<lambda>cmd env s. (Inr 0, s)),
      in_wait = (\<lambda>p s. (Inr 0, s)),
      in_kill = (\<lambda>p s. s)\<rparr>"

section \<open>The dictionary utilities of catalyst/contrib/utils/dict.py\<close>

text \<open>
  The utilities work on Python dictionaries, which are mutable objects: two names can
  refer to the same dictionary, and a dictionary can hold other dictionaries. The model
  keeps the dictionaries in an explicit heap and passes the heap through every
  function, so that "this argument was changed" and "the result is a new object" are
  statements about the heap.
\<close>

subsection \<open>Values, dictionaries and the heap\<close>

text \<open>
  The keys of a dictionary are hashable values: \<^verbatim>\<open>None\<close>, integers and strings. The
  values are \<^verbatim>\<open>None\<close>, integers, strings, arrays (given by their elements; the module
  only ever builds new arrays with \<^verbatim>\<open>np.concatenate\<close>) and references to dictionaries.
\<close>

type_synonym addr = nat

datatype hkey = KNone | KInt int | KStr string

datatype val = VNone | VInt int | VStr string | VArr "int list" | VRef addr

text \<open>
  A dictionary is the list of its items in insertion order, which is the order Python
  iterates in. The heap is the list of all dictionaries; the address of a dictionary is
  its position, and a new dictionary goes to the end.
\<close>

type_synonym pydict = "(hkey \<times> val) list"

type_synonym heap = "pydict list"

datatype pyerr =
    AssertionError
  | KeyError hkey
  | TypeError
  | ValueError
  | AttributeError
  | RecursionError
  | NotImplementedError

text \<open>
  The dictionary at an address. Python has no dangling reference; an address outside
  the heap reads as the empty dictionary.
\<close>

definition dict_at :: "heap \<Rightarrow> addr \<Rightarrow> pydict" where
  "dict_at h a = (if a < length h then h ! a else [])"

text \<open>\<^verbatim>\<open>d[k]\<close>, which raises \<^verbatim>\<open>KeyError\<close> for a missing key.\<close>

definition getitem :: "heap \<Rightarrow> addr \<Rightarrow> hkey \<Rightarrow> pyerr + val" where
  "getitem h d k = (case map_of (dict_at h d) k of None \<Rightarrow> Inl (KeyError k) | Some v \<Rightarrow> Inr v)"

text \<open>
  \<^verbatim>\<open>d[k] = v\<close>: the value of an existing key is replaced where it stands, a new key goes
  to the end. The dictionary at \<open>d\<close> is changed in place, as seen through every reference
  to it.
\<close>

definition setitem :: "heap \<Rightarrow> addr \<Rightarrow> hkey \<Rightarrow> val \<Rightarrow> heap" where
  "setitem h d k v = h[d := AList.update k v (dict_at h d)]"

text \<open>A new dictionary with the given items.\<close>

definition alloc :: "heap \<Rightarrow> pydict \<Rightarrow> heap \<times> addr" where
  "alloc h d = (h @ [d], length h)"

text \<open>
  The items of the dictionary built from a sequence of pairs, by \<^verbatim>\<open>OrderedDict(items)\<close>
  or by a dictionary comprehension: a key that comes again keeps its place and takes
  the later value.
\<close>

definition dict_of_items :: "(hkey \<times> val) list \<Rightarrow> pydict" where
  "dict_of_items xs = foldl (\<lambda>d (k, v). AList.update k v d) [] xs"

text \<open>
  The invariants of a Python heap: the keys of a dictionary are distinct, and every
  reference leads to a dictionary of the heap.
\<close>

definition wf_dict :: "heap \<Rightarrow> pydict \<Rightarrow> bool" where
  "wf_dict h d \<longleftrightarrow>
     distinct (map fst d) \<and> list_all (\<lambda>(k, v). case v of VRef b \<Rightarrow> b < length h | _ \<Rightarrow> True) d"

definition wf_heap :: "heap \<Rightarrow> bool" where
  "wf_heap h \<longleftrightarrow> list_all (wf_dict h) h"

text \<open>
  Every dictionary of \<open>h\<close> is in \<open>h'\<close>, at its address and with its items: getting from \<open>h\<close>
  to \<open>h'\<close> changed no dictionary, it made new ones at most.
\<close>

definition unchanged :: "heap \<Rightarrow> heap \<Rightarrow> bool" where
  "unchanged h h' \<longleftrightarrow> take (length h) h' = h"

text \<open>The same for every dictionary of \<open>h\<close> but the one at \<open>d\<close>.\<close>

definition unchanged_but :: "addr \<Rightarrow> heap \<Rightarrow> heap \<Rightarrow> bool" where
  "unchanged_but d h h' \<longleftrightarrow>
     length h \<le> length h' \<and> (\<forall>i<length h. i \<noteq> d \<longrightarrow> h' ! i = h ! i)"

text \<open>
  What a reader of the value \<open>v\<close> sees in the heap \<open>h\<close> down to \<open>n\<close> levels of nested
  dictionaries, with the addresses forgotten. Two values that agree at every depth
  cannot be told apart by reading.
\<close>

datatype tree = TNone | TInt int | TStr string | TArr "int list" | TDict "(hkey \<times> tree) list" | TCut

fun contents :: "nat \<Rightarrow> heap \<Rightarrow> val \<Rightarrow> tree" where
  "contents n h VNone = TNone"
| "contents n h (VInt i) = TInt i"
| "contents n h (VStr s) = TStr s"
| "contents n h (VArr xs) = TArr xs"
| "contents 0 h (VRef a) = TCut"
| "contents (Suc n) h (VRef a) = TDict (map (\<lambda>(k, v). (k, contents n h v)) (dict_at h a))"

text \<open>The dictionaries that can be reached from the dictionary at \<open>a\<close>.\<close>

inductive reachable :: "heap \<Rightarrow> addr \<Rightarrow> addr \<Rightarrow> bool" for h :: heap and a :: addr where
  reachable_self: "reachable h a a"
| reachable_step: "reachable h a b \<Longrightarrow> (k, VRef c) \<in> set (dict_at h b) \<Longrightarrow> reachable h a c"

code_pred reachable .

subsection \<open>copy.deepcopy\<close>

text \<open>
  \<^verbatim>\<open>merge_dicts\<close> starts from \<^verbatim>\<open>copy.deepcopy(dicts[0])\<close>. The standard library copies a
  dictionary by making an empty one, recording it in the memo under the original
  before it copies anything else, and then storing a deep copy of every value under
  its key; a dictionary that is already in the memo is not copied again, which keeps
  shared and cyclic structure. Immutable values are their own copies, and so is an
  array here, which is given by its elements.

  The first argument bounds the depth of the recursion, as the interpreter's recursion
  limit does; a copy that needs more raises \<^verbatim>\<open>RecursionError\<close>.
\<close>

fun deepcopy ::
    "nat \<Rightarrow> heap \<Rightarrow> (addr \<rightharpoonup> addr) \<Rightarrow> val \<Rightarrow> heap \<times> (addr \<rightharpoonup> addr) \<times> (pyerr + val)"
  and copy_items ::
    "nat \<Rightarrow> heap \<Rightarrow> (addr \<rightharpoonup> addr) \<Rightarrow> addr \<Rightarrow> (hkey \<times> val) list \<Rightarrow>
       heap \<times> (addr \<rightharpoonup> addr) \<times> (pyerr + val)"
where
  "deepcopy n h memo VNone = (h, memo, Inr VNone)"
| "deepcopy n h memo (VInt i) = (h, memo, Inr (VInt i))"
| "deepcopy n h memo (VStr s) = (h, memo, Inr (VStr s))"
| "deepcopy n h memo (VArr xs) = (h, memo, Inr (VArr xs))"
| "deepcopy 0 h memo (VRef a) =
     (case memo a of
        Some b \<Rightarrow> (h, memo, Inr (VRef b))
      | None \<Rightarrow> (h, memo, Inl RecursionError))"
| "deepcopy (Suc n) h memo (VRef a) =
     (case memo a of
        Some b \<Rightarrow> (h, memo, Inr (VRef b))
      | None \<Rightarrow> copy_items n (h @ [[]]) (memo(a \<mapsto> length h)) (length h) (dict_at h a))"
| "copy_items n h memo y [] = (h, memo, Inr (VRef y))"
| "copy_items n h memo y ((k, x) # rest) =
     (case deepcopy n h memo x of
        (h', memo', Inl e) \<Rightarrow> (h', memo', Inl e)
      | (h', memo', Inr x') \<Rightarrow> copy_items n (setitem h' y k x') memo' y rest)"

subsection \<open>merge\_dicts\<close>

text \<open>An argument of \<^verbatim>\<open>merge_dicts\<close>: a dictionary or \<^verbatim>\<open>None\<close>.\<close>

fun arg_val :: "addr option \<Rightarrow> val" where
  "arg_val None = VNone"
| "arg_val (Some a) = VRef a"

text \<open>
  \<^verbatim>\<open>merge_dict or {}\<close>: \<^verbatim>\<open>None\<close> and the empty dictionary are falsy, and a new empty
  dictionary takes their place.
\<close>

fun falsy :: "heap \<Rightarrow> addr option \<Rightarrow> bool" where
  "falsy h None = True"
| "falsy h (Some a) = (dict_at h a = [])"

definition or_empty :: "heap \<Rightarrow> addr option \<Rightarrow> heap \<times> addr" where
  "or_empty h md = (case md of
       Some a \<Rightarrow> if falsy h md then alloc h [] else (h, a)
     | None \<Rightarrow> alloc h [])"

text \<open>
  The condition \<^verbatim>\<open>k in dict_ and isinstance(dict_[k], dict) and
  isinstance(merge_dict[k], collections.Mapping)\<close>, from what the two dictionaries hold
  under \<open>k\<close>: when it is true, the two nested dictionaries.
\<close>

fun nested_dicts :: "val option \<Rightarrow> val option \<Rightarrow> (addr \<times> addr) option" where
  "nested_dicts (Some (VRef a)) (Some (VRef b)) = Some (a, b)"
| "nested_dicts x y = None"

text \<open>
  \<^verbatim>\<open>
  def merge_dicts(*dicts):
      assert len(dicts) > 1
      dict_ = copy.deepcopy(dicts[0])
      for merge_dict in dicts[1:]:
          merge_dict = merge_dict or {}
          for k in merge_dict:
              if (k in dict_ and isinstance(dict_[k], dict)
                      and isinstance(merge_dict[k], collections.Mapping)):
                  dict_[k] = merge_dicts(dict_[k], merge_dict[k])
              else:
                  dict_[k] = merge_dict[k]
      return dict_
  \<close>
  \<open>merge_dicts\<close> is the function, \<open>merge_args\<close> its outer loop over \<^verbatim>\<open>dicts[1:]\<close> and
  \<open>merge_keys\<close> its inner loop over the keys of \<^verbatim>\<open>merge_dict\<close>. The first argument is the
  recursion depth that is left. When \<^verbatim>\<open>dicts[0]\<close> is \<^verbatim>\<open>None\<close> so is \<^verbatim>\<open>dict_\<close>, and
  \<^verbatim>\<open>k in dict_\<close> raises \<^verbatim>\<open>TypeError\<close>. The \<^verbatim>\<open>KeyError\<close> of \<open>merge_keys\<close> stands for
  \<^verbatim>\<open>merge_dict[k]\<close> with \<open>k\<close> missing, which does not happen for a key the loop took from
  \<^verbatim>\<open>merge_dict\<close>. The module's \<^verbatim>\<open>*dicts: dict\<close> and its \<^verbatim>\<open>merge_dict or {}\<close> give the
  arguments their type: a dictionary or \<^verbatim>\<open>None\<close>.
\<close>

function (sequential) merge_dicts :: "nat \<Rightarrow> heap \<Rightarrow> addr option list \<Rightarrow> heap \<times> (pyerr + val)"
  and merge_args :: "nat \<Rightarrow> heap \<Rightarrow> val \<Rightarrow> addr option list \<Rightarrow> heap \<times> (pyerr + val)"
  and merge_keys :: "nat \<Rightarrow> heap \<Rightarrow> val \<Rightarrow> addr \<Rightarrow> hkey list \<Rightarrow> heap \<times> (pyerr + unit)"
where
  "merge_dicts 0 h dicts = (h, Inl RecursionError)"
| "merge_dicts (Suc n) h dicts =
     (if \<not> 1 < length dicts then (h, Inl AssertionError)
      else case deepcopy n h Map.empty (arg_val (hd dicts)) of
             (h1, memo, Inl e) \<Rightarrow> (h1, Inl e)
           | (h1, memo, Inr dict') \<Rightarrow> merge_args n h1 dict' (tl dicts))"
| "merge_args n h dict' [] = (h, Inr dict')"
| "merge_args n h dict' (merge_dict # rest) =
     (case or_empty h merge_dict of
        (h1, md) \<Rightarrow>
          (case merge_keys n h1 dict' md (map fst (dict_at h1 md)) of
             (h2, Inl e) \<Rightarrow> (h2, Inl e)
           | (h2, Inr u) \<Rightarrow> merge_args n h2 dict' rest))"
| "merge_keys n h dict' md [] = (h, Inr ())"
| "merge_keys n h VNone md (k # ks) = (h, Inl TypeError)"
| "merge_keys n h (VRef d) md (k # ks) =
     (case nested_dicts (map_of (dict_at h d) k) (map_of (dict_at h md) k) of
        Some (a, b) \<Rightarrow>
          (case merge_dicts n h [Some a, Some b] of
             (h', Inl e) \<Rightarrow> (h', Inl e)
           | (h', Inr r) \<Rightarrow> merge_keys n (setitem h' d k r) (VRef d) md ks)
      | None \<Rightarrow>
          (case map_of (dict_at h md) k of
             None \<Rightarrow> (h, Inl (KeyError k))
           | Some v \<Rightarrow> merge_keys n (setitem h d k v) (VRef d) md ks))"
| "merge_keys n h v md (k # ks) = (h, Inl TypeError)"
  by pat_completeness auto

termination
  by (relation "inv_image (less_than <*lex*> less_than <*lex*> less_than)
        (\<lambda>x. case x of
           Inl (n, h, dicts) \<Rightarrow> (n, 0::nat, 0::nat)
         | Inr (Inl (n, h, d, args)) \<Rightarrow> (n, 2, length args)
         | Inr (Inr (n, h, d, md, ks)) \<Rightarrow> (n, 1, length ks))") auto

subsection \<open>flatten\_dict\<close>

text \<open>
  \<^verbatim>\<open>new_key = parent_key + separator + key if parent_key else key\<close>. The recursion passes
  \<^verbatim>\<open>new_key\<close> on as \<^verbatim>\<open>parent_key\<close>, so the parent key is a key like any other: \<^verbatim>\<open>None\<close>, \<^verbatim>\<open>0\<close>
  and \<^verbatim>\<open>""\<close> are falsy, and \<^verbatim>\<open>+\<close> raises \<^verbatim>\<open>TypeError\<close> unless both sides are strings.
\<close>

fun truthy_key :: "hkey \<Rightarrow> bool" where
  "truthy_key KNone = False"
| "truthy_key (KInt i) = (i \<noteq> 0)"
| "truthy_key (KStr s) = (s \<noteq> [])"

fun new_key :: "hkey \<Rightarrow> string \<Rightarrow> hkey \<Rightarrow> pyerr + hkey" where
  "new_key (KStr p) separator (KStr k) = (if p \<noteq> [] then Inr (KStr (p @ separator @ k)) else Inr (KStr k))"
| "new_key parent_key separator key = (if truthy_key parent_key then Inl TypeError else Inr key)"

text \<open>
  \<^verbatim>\<open>
  def flatten_dict(dictionary, parent_key="", separator="/"):
      items = []
      for key, value in dictionary.items():
          new_key = parent_key + separator + key if parent_key else key
          if isinstance(value, collections.MutableMapping):
              items.extend(flatten_dict(value, new_key, separator=separator).items())
          else:
              items.append((new_key, value))
      return collections.OrderedDict(items)
  \<close>
  \<open>flatten_items\<close> is the loop, with the list \<^verbatim>\<open>items\<close> built so far. The result is the
  address of the new dictionary.
\<close>

function (sequential) flatten_dict :: "nat \<Rightarrow> heap \<Rightarrow> addr \<Rightarrow> hkey \<Rightarrow> string \<Rightarrow> heap \<times> (pyerr + addr)"
  and flatten_items ::
    "nat \<Rightarrow> heap \<Rightarrow> (hkey \<times> val) list \<Rightarrow> hkey \<Rightarrow> string \<Rightarrow> (hkey \<times> val) list \<Rightarrow>
       heap \<times> (pyerr + (hkey \<times> val) list)"
where
  "flatten_dict 0 h dictionary parent_key separator = (h, Inl RecursionError)"
| "flatten_dict (Suc n) h dictionary parent_key separator =
     (case flatten_items n h (dict_at h dictionary) parent_key separator [] of
        (h', Inl e) \<Rightarrow> (h', Inl e)
      | (h', Inr items) \<Rightarrow> (case alloc h' (dict_of_items items) of (h'', r) \<Rightarrow> (h'', Inr r)))"
| "flatten_items n h [] parent_key separator items = (h, Inr items)"
| "flatten_items n h ((key, value) # rest) parent_key separator items =
     (case new_key parent_key separator key of
        Inl e \<Rightarrow> (h, Inl e)
      | Inr nk \<Rightarrow>
          (case value of
             VRef a \<Rightarrow>
               (case flatten_dict n h a nk separator of
                  (h', Inl e) \<Rightarrow> (h', Inl e)
                | (h', Inr r) \<Rightarrow> flatten_items n h' rest parent_key separator (items @ dict_at h' r))
           | x \<Rightarrow> flatten_items n h rest parent_key separator (items @ [(nk, value)])))"
  by pat_completeness auto

termination
  by (relation "inv_image (less_than <*lex*> less_than)
        (\<lambda>x. case x of
           Inl (n, h, d, p, s) \<Rightarrow> (n, 0::nat)
         | Inr (n, h, its, p, s, acc) \<Rightarrow> (n, Suc (length its)))") auto

subsection \<open>append\_dict\<close>

text \<open>
  \<^verbatim>\<open>np.concatenate((a, b))\<close> joins two arrays into a new one and raises \<^verbatim>\<open>ValueError\<close>
  for anything that is not an array (a scalar is a zero-dimensional array, which cannot
  be concatenated).
\<close>

fun concatenate :: "val \<Rightarrow> val \<Rightarrow> pyerr + val" where
  "concatenate (VArr xs) (VArr ys) = Inr (VArr (xs @ ys))"
| "concatenate x y = Inl ValueError"

text \<open>
  \<^verbatim>\<open>
  def append_dict(dict1, dict2):
      for key in dict1.keys():
          dict1[key] = np.concatenate((dict1[key], dict2[key]))
      return dict1
  \<close>
  \<open>append_keys\<close> is the loop over the keys of \<^verbatim>\<open>dict1\<close>. The assignment writes into the
  dictionary the caller passed, and what was written stays written when a later key
  raises.
\<close>

fun append_keys :: "heap \<Rightarrow> addr \<Rightarrow> addr \<Rightarrow> hkey list \<Rightarrow> heap \<times> (pyerr + unit)" where
  "append_keys h dict1 dict2 [] = (h, Inr ())"
| "append_keys h dict1 dict2 (key # keys) =
     (case getitem h dict1 key of
        Inl e \<Rightarrow> (h, Inl e)
      | Inr x \<Rightarrow>
          (case getitem h dict2 key of
             Inl e \<Rightarrow> (h, Inl e)
           | Inr y \<Rightarrow>
               (case concatenate x y of
                  Inl e \<Rightarrow> (h, Inl e)
                | Inr z \<Rightarrow> append_keys (setitem h dict1 key z) dict1 dict2 keys)))"

definition append_dict :: "heap \<Rightarrow> addr \<Rightarrow> addr \<Rightarrow> heap \<times> (pyerr + val)" where
  "append_dict h dict1 dict2 =
     (case append_keys h dict1 dict2 (map fst (dict_at h dict1)) of
        (h', Inl e) \<Rightarrow> (h', Inl e)
      | (h', Inr u) \<Rightarrow> (h', Inr (VRef dict1)))"

subsection \<open>The get\_key functions\<close>

text \<open>\<^verbatim>\<open>get_key_str(dictionary, key)\<close>: \<^verbatim>\<open>return dictionary[key]\<close>.\<close>

definition get_key_str :: "heap \<Rightarrow> addr \<Rightarrow> hkey \<Rightarrow> heap \<times> (pyerr + val)" where
  "get_key_str h dictionary key = (h, getitem h dictionary key)"

text \<open>
  The items of \<^verbatim>\<open>{key_: dictionary[key_] for key_ in key}\<close>, up to the first key that is
  missing.
\<close>

fun list_items :: "heap \<Rightarrow> addr \<Rightarrow> hkey list \<Rightarrow> pyerr + (hkey \<times> val) list" where
  "list_items h dictionary [] = Inr []"
| "list_items h dictionary (k # ks) =
     (case getitem h dictionary k of
        Inl e \<Rightarrow> Inl e
      | Inr v \<Rightarrow> (case list_items h dictionary ks of Inl e \<Rightarrow> Inl e | Inr its \<Rightarrow> Inr ((k, v) # its)))"

text \<open>\<^verbatim>\<open>get_key_list(dictionary, key)\<close> returns the new dictionary of the comprehension.\<close>

definition get_key_list :: "heap \<Rightarrow> addr \<Rightarrow> hkey list \<Rightarrow> heap \<times> (pyerr + val)" where
  "get_key_list h dictionary key =
     (case list_items h dictionary key of
        Inl e \<Rightarrow> (h, Inl e)
      | Inr its \<Rightarrow> (case alloc h (dict_of_items its) of (h', r) \<Rightarrow> (h', Inr (VRef r))))"

text \<open>
  A value used as a key: dictionaries and arrays are not hashable, and storing under
  one raises \<^verbatim>\<open>TypeError\<close>.
\<close>

fun as_key :: "val \<Rightarrow> pyerr + hkey" where
  "as_key VNone = Inr KNone"
| "as_key (VInt i) = Inr (KInt i)"
| "as_key (VStr s) = Inr (KStr s)"
| "as_key v = Inl TypeError"

text \<open>
  The items of \<^verbatim>\<open>{key_out: dictionary[key_in] for key_in, key_out in key.items()}\<close>:
  the value is looked up first, then stored under \<^verbatim>\<open>key_out\<close>.
\<close>

fun dict_items :: "heap \<Rightarrow> addr \<Rightarrow> (hkey \<times> val) list \<Rightarrow> pyerr + (hkey \<times> val) list" where
  "dict_items h dictionary [] = Inr []"
| "dict_items h dictionary ((key_in, key_out) # rest) =
     (case getitem h dictionary key_in of
        Inl e \<Rightarrow> Inl e
      | Inr v \<Rightarrow>
          (case as_key key_out of
             Inl e \<Rightarrow> Inl e
           | Inr ko \<Rightarrow>
               (case dict_items h dictionary rest of Inl e \<Rightarrow> Inl e | Inr its \<Rightarrow> Inr ((ko, v) # its))))"

text \<open>\<^verbatim>\<open>get_key_dict(dictionary, key)\<close>, where \<^verbatim>\<open>key\<close> is itself a dictionary.\<close>

definition get_key_dict :: "heap \<Rightarrow> addr \<Rightarrow> addr \<Rightarrow> heap \<times> (pyerr + val)" where
  "get_key_dict h dictionary key =
     (case dict_items h dictionary (dict_at h key) of
        Inl e \<Rightarrow> (h, Inl e)
      | Inr its \<Rightarrow> (case alloc h (dict_of_items its) of (h', r) \<Rightarrow> (h', Inr (VRef r))))"

text \<open>
  The \<^verbatim>\<open>key\<close> argument of \<^verbatim>\<open>get_dictkey_auto_fn\<close> by its type (a string, a list or tuple, a
  dictionary, \<^verbatim>\<open>None\<close>, anything else), and the function it returns.
\<close>

datatype key_arg = Key_str string | Key_list "hkey list" | Key_dict addr | Key_none | Key_other

datatype key_fn = Get_key_all | Get_key_str | Get_key_list | Get_key_dict | Get_key_none

text \<open>\<^verbatim>\<open>get_key_none(dictionary, key)\<close>: \<^verbatim>\<open>return {}\<close>, a new dictionary.\<close>

definition get_key_none :: "heap \<Rightarrow> addr \<Rightarrow> key_arg \<Rightarrow> heap \<times> (pyerr + val)" where
  "get_key_none h dictionary key = (case alloc h [] of (h', r) \<Rightarrow> (h', Inr (VRef r)))"

text \<open>\<^verbatim>\<open>get_key_all(dictionary, key)\<close>: \<^verbatim>\<open>return dictionary\<close>, the very same object.\<close>

definition get_key_all :: "heap \<Rightarrow> addr \<Rightarrow> key_arg \<Rightarrow> heap \<times> (pyerr + val)" where
  "get_key_all h dictionary key = (h, Inr (VRef dictionary))"

text \<open>
  \<^verbatim>\<open>
  def get_dictkey_auto_fn(key):
      if isinstance(key, str):
          if key == "__all__":
              return get_key_all
          else:
              return get_key_str
      elif isinstance(key, (list, tuple)):
          return get_key_list
      elif isinstance(key, dict):
          return get_key_dict
      elif key is None:
          return get_key_none
      else:
          raise NotImplementedError()
  \<close>
  It looks at the type of \<^verbatim>\<open>key\<close> only and touches no dictionary.
\<close>

fun get_dictkey_auto_fn :: "key_arg \<Rightarrow> pyerr + key_fn" where
  "get_dictkey_auto_fn (Key_str key) = (if key = ''__all__'' then Inr Get_key_all else Inr Get_key_str)"
| "get_dictkey_auto_fn (Key_list key) = Inr Get_key_list"
| "get_dictkey_auto_fn (Key_dict key) = Inr Get_key_dict"
| "get_dictkey_auto_fn Key_none = Inr Get_key_none"
| "get_dictkey_auto_fn Key_other = Inl NotImplementedError"

subsection \<open>split\_dict\_to\_subdicts\<close>

text \<open>\<^verbatim>\<open>k.startswith(prefix)\<close> on strings.\<close>

definition startswith :: "string \<Rightarrow> string \<Rightarrow> bool" where
  "startswith k prefix \<longleftrightarrow> take (length prefix) k = prefix"

text \<open>
  \<^verbatim>\<open>k.replace(old, new)\<close> for a non-empty \<^verbatim>\<open>old\<close>: every occurrence of \<^verbatim>\<open>old\<close>, found from
  left to right without overlap, is replaced. (Here \<^verbatim>\<open>old\<close> is \<^verbatim>\<open>f"{prefix}_"\<close>, which is
  never empty; for an empty \<^verbatim>\<open>old\<close> the function returns the string as it is.)
\<close>

function replace :: "string \<Rightarrow> string \<Rightarrow> string \<Rightarrow> string" where
  "replace k old new =
     (if k = [] \<or> old = [] then k
      else if startswith k old then new @ replace (drop (length old) k) old new
      else hd k # replace (tl k) old new)"
  by pat_completeness auto

termination
  by (relation "measure (\<lambda>(k, old, new). length k)") auto

text \<open>
  \<^verbatim>\<open>all(not k.startswith(prefix) for prefix in prefixes)\<close> for a key \<open>k\<close>: a key that is not
  a string has no \<^verbatim>\<open>startswith\<close>, which raises \<^verbatim>\<open>AttributeError\<close> as soon as the
  generator reaches a prefix.
\<close>

fun no_prefix :: "hkey \<Rightarrow> string list \<Rightarrow> pyerr + bool" where
  "no_prefix k [] = Inr True"
| "no_prefix (KStr s) (prefix # prefixes) =
     (if startswith s prefix then Inr False else no_prefix (KStr s) prefixes)"
| "no_prefix k (prefix # prefixes) = Inl AttributeError"

text \<open>
  The items of
  \<^verbatim>\<open>{k: v for k, v in dct.items() if all(not k.startswith(prefix) for prefix in prefixes)}\<close>.
\<close>

fun extra_items :: "(hkey \<times> val) list \<Rightarrow> string list \<Rightarrow> pyerr + (hkey \<times> val) list" where
  "extra_items [] prefixes = Inr []"
| "extra_items ((k, v) # rest) prefixes =
     (case no_prefix k prefixes of
        Inl e \<Rightarrow> Inl e
      | Inr b \<Rightarrow>
          (case extra_items rest prefixes of
             Inl e \<Rightarrow> Inl e
           | Inr its \<Rightarrow> Inr (if b then (k, v) # its else its)))"

text \<open>
  The items of
  \<^verbatim>\<open>{k.replace(f"{prefix}_", ""): v for k, v in dct.items() if k.startswith(prefix)}\<close>.
\<close>

fun prefix_items :: "(hkey \<times> val) list \<Rightarrow> string \<Rightarrow> pyerr + (hkey \<times> val) list" where
  "prefix_items [] prefix = Inr []"
| "prefix_items ((KStr s, v) # rest) prefix =
     (case prefix_items rest prefix of
        Inl e \<Rightarrow> Inl e
      | Inr its \<Rightarrow>
          Inr (if startswith s prefix then (KStr (replace s (prefix @ ''_'') ''''), v) # its else its))"
| "prefix_items ((k, v) # rest) prefix = Inl AttributeError"

text \<open>
  The loop \<^verbatim>\<open>for prefix in prefixes: subdicts[prefix] = {...}\<close>, where \<open>subdicts\<close> is the
  address of the dictionary being filled.
\<close>

fun split_prefixes :: "heap \<Rightarrow> addr \<Rightarrow> addr \<Rightarrow> string list \<Rightarrow> heap \<times> (pyerr + unit)" where
  "split_prefixes h dct subdicts [] = (h, Inr ())"
| "split_prefixes h dct subdicts (prefix # prefixes) =
     (case prefix_items (dict_at h dct) prefix of
        Inl e \<Rightarrow> (h, Inl e)
      | Inr its \<Rightarrow>
          (case alloc h (dict_of_items its) of
             (h', r) \<Rightarrow> split_prefixes (setitem h' subdicts (KStr prefix) (VRef r)) dct subdicts prefixes))"

text \<open>
  \<^verbatim>\<open>
  def split_dict_to_subdicts(dct, prefixes, extra_key):
      subdicts = {}
      extra_subdict = {
          k: v for k, v in dct.items()
          if all(not k.startswith(prefix) for prefix in prefixes)
      }
      if len(extra_subdict) > 0:
          subdicts[extra_key] = extra_subdict
      for prefix in prefixes:
          subdicts[prefix] = {
              k.replace(f"{prefix}_", ""): v
              for k, v in dct.items() if k.startswith(prefix)
          }
      return subdicts
  \<close>
\<close>

definition split_dict_to_subdicts ::
  "heap \<Rightarrow> addr \<Rightarrow> string list \<Rightarrow> hkey \<Rightarrow> heap \<times> (pyerr + val)"
where
  "split_dict_to_subdicts h dct prefixes extra_key =
     (case alloc h [] of
        (h1, subdicts) \<Rightarrow>
          (case extra_items (dict_at h1 dct) prefixes of
             Inl e \<Rightarrow> (h1, Inl e)
           | Inr its \<Rightarrow>
               (case alloc h1 (dict_of_items its) of
                  (h2, extra_subdict) \<Rightarrow>
                    (let h3 = (if 0 < length (dict_at h2 extra_subdict)
                               then setitem h2 subdicts extra_key (VRef extra_subdict) else h2)
                     in case split_prefixes h3 dct subdicts prefixes of
                          (h4, Inl e) \<Rightarrow> (h4, Inl e)
                        | (h4, Inr u) \<Rightarrow> (h4, Inr (VRef subdicts))))))"

subsection \<open>Notions for the correctness of copy.deepcopy\<close>

text \<open>
  A value of the original read through the memo: a reference becomes the reference to
  its copy, anything else is its own copy.
\<close>

fun renamed :: "(addr \<rightharpoonup> addr) \<Rightarrow> val \<Rightarrow> val" where
  "renamed m (VRef a) = VRef (the (m a))"
| "renamed m v = v"

text \<open>
  The dictionary at \<open>a\<close> of the heap \<open>h0\<close> has been copied: its copy in \<open>h\<close> has the same keys
  in the same order, with every value read through the memo, and every dictionary it
  refers to is in the memo as well.
\<close>

definition copied :: "heap \<Rightarrow> heap \<Rightarrow> (addr \<rightharpoonup> addr) \<Rightarrow> addr \<Rightarrow> bool" where
  "copied h0 h m a \<longleftrightarrow>
     dict_at h (the (m a)) = map (\<lambda>(k, x). (k, renamed m x)) (dict_at h0 a) \<and>
     (\<forall>k c. (k, VRef c) \<in> set (dict_at h0 a) \<longrightarrow> c \<in> dom m)"

text \<open>
  While the heap \<open>h0\<close> is copied into \<open>h\<close>: the dictionaries of \<open>h0\<close> are unchanged, the
  memo has originals for keys and new dictionaries for values.
\<close>

definition memo_ok :: "heap \<Rightarrow> heap \<Rightarrow> (addr \<rightharpoonup> addr) \<Rightarrow> bool" where
  "memo_ok h0 h m \<longleftrightarrow>
     unchanged h0 h \<and> dom m \<subseteq> {..<length h0} \<and> ran m \<subseteq> {length h0..<length h}"

text \<open>A value of the heap \<open>h0\<close>: a reference in it leads to a dictionary of \<open>h0\<close>.\<close>

definition val_ok :: "heap \<Rightarrow> val \<Rightarrow> bool" where
  "val_ok h0 v \<longleftrightarrow> (\<forall>a. v = VRef a \<longrightarrow> a < length h0)"

text \<open>
  What a call that takes the heap and memo from \<open>h\<close>, \<open>m\<close> to \<open>h'\<close>, \<open>m'\<close> adds: the memo grows,
  and every dictionary that enters it has a finished copy at an address that \<open>h\<close> did
  not have.
\<close>

definition new_copies ::
  "heap \<Rightarrow> heap \<Rightarrow> (addr \<rightharpoonup> addr) \<Rightarrow> heap \<Rightarrow> (addr \<rightharpoonup> addr) \<Rightarrow> bool" where
  "new_copies h0 h m h' m' \<longleftrightarrow>
     m \<subseteq>\<^sub>m m' \<and> dom m' \<subseteq> {..<length h0} \<and>
     (\<forall>a\<in>dom m' - dom m. length h \<le> the (m' a) \<and> the (m' a) < length h' \<and> copied h0 h' m' a)"

subsection \<open>Concrete heaps\<close>

text \<open>Two dictionaries of arrays with the same keys, as \<^verbatim>\<open>append_dict\<close> takes them.\<close>

definition arrays :: heap where
  "arrays = [[(KStr ''loss'', VArr [1]), (KStr ''acc'', VArr [7, 8])],
             [(KStr ''acc'', VArr [9]), (KStr ''loss'', VArr [2, 3])]]"

text \<open>
  A configuration with a nested dictionary that refers back to its parent, and an empty
  dictionary.
\<close>

definition nested :: heap where
  "nested = [[(KStr ''model'', VRef 1), (KStr ''seed'', VInt 42)],
             [(KStr ''lr'', VInt 3), (KStr ''parent'', VRef 0)],
             []]"

section \<open>Properties of the worker launcher\<close>

subsection \<open>Properties of the spawn loop and the wait loop\<close>

lemma spawn_loop_workers:
  "spawn_loop w js ws = (tr, ws', r) \<Longrightarrow>
   ws' = ws @ takeWhile (\<lambda>i. popen w i = Returned) js"
proof (induction js arbitrary: ws tr ws' r)
  case Nil
  then show ?case by simp
next
  case (Cons j js)
  show ?case
  proof (cases "popen w j")
    case Returned
    obtain tr0 ws0 r0 where rec: "spawn_loop w js (ws @ [j]) = (tr0, ws0, r0)"
      by (cases "spawn_loop w js (ws @ [j])") auto
    with Cons.prems Returned have "ws' = ws0" by simp
    moreover from Cons.IH [OF rec] have "ws0 = (ws @ [j]) @ takeWhile (\<lambda>i. popen w i = Returned) js" .
    ultimately show ?thesis using Returned by simp
  next
    case (Raised e)
    with Cons.prems have "ws' = ws" by auto
    with Raised show ?thesis by simp
  qed
qed

lemma spawn_loop_outcome:
  "spawn_loop w js ws = (tr, ws', r) \<Longrightarrow>
   (length ws' < length ws + length js \<longrightarrow> r = popen w (js ! (length ws' - length ws)) \<and> r \<noteq> Returned) \<and>
   (length ws' = length ws + length js \<longrightarrow> r = Returned)"
proof (induction js arbitrary: ws tr ws' r)
  case Nil
  then show ?case by simp
next
  case (Cons j js)
  show ?case
  proof (cases "popen w j")
    case Returned
    obtain tr0 ws0 r0 where rec: "spawn_loop w js (ws @ [j]) = (tr0, ws0, r0)"
      by (cases "spawn_loop w js (ws @ [j])") auto
    with Cons.prems Returned have eq: "ws' = ws0" "r = r0" by simp_all
    from spawn_loop_workers [OF rec] have "length ws0 \<ge> length ws + 1" by simp
    with Cons.IH [OF rec] eq show ?thesis by (auto simp: Suc_diff_le)
  next
    case (Raised e)
    with Cons.prems have "ws' = ws" "r = Raised e" by auto
    with Raised show ?thesis by simp
  qed
qed

lemma spawn_loop_trace:
  "spawn_loop w js ws = (tr, ws', r) \<Longrightarrow> \<forall>ev\<in>set tr. is_Popen ev"
proof (induction js arbitrary: ws tr ws' r)
  case Nil
  then show ?case by simp
next
  case (Cons j js)
  show ?case
  proof (cases "popen w j")
    case Returned
    obtain tr0 ws0 r0 where rec: "spawn_loop w js (ws @ [j]) = (tr0, ws0, r0)"
      by (cases "spawn_loop w js (ws @ [j])") auto
    with Cons.prems Returned have "tr = Popen ([executable w] @ argv w)
       (get_distributed_env w (int j) (start_rank (get_distributed_params w) + int j)
          (world_size (get_distributed_params w))) # tr0" by (simp add: Let_def)
    with Cons.IH [OF rec] show ?thesis by simp
  next
    case (Raised e)
    with Cons.prems show ?thesis by (auto simp: Let_def)
  qed
qed

lemma spawn_loop_all:
  "\<forall>i\<in>set js. popen w i = Returned \<Longrightarrow>
   spawn_loop w js ws =
     (map (\<lambda>i. Popen (executable w # argv w)
                (get_distributed_env w (int i) (start_rank (get_distributed_params w) + int i)
                   (world_size (get_distributed_params w)))) js,
      ws @ js, Returned)"
  by (induction js arbitrary: ws) simp_all

lemma spawn_loop_raised:
  "spawn_loop w js ws = (tr, ws', Raised e) \<Longrightarrow> \<exists>i\<in>set js. popen w i = Raised e"
proof (induction js arbitrary: ws tr ws')
  case Nil
  then show ?case by simp
next
  case (Cons j js)
  show ?case
  proof (cases "popen w j")
    case Returned
    obtain tr0 ws0 r0 where rec: "spawn_loop w js (ws @ [j]) = (tr0, ws0, r0)"
      by (cases "spawn_loop w js (ws @ [j])") auto
    with Cons.prems Returned have "r0 = Raised e" by simp
    with Cons.IH rec show ?thesis by auto
  next
    case (Raised e')
    with Cons.prems show ?thesis by auto
  qed
qed

lemma spawn_loop_calls:
  "spawn_loop w js ws = (tr, ws', r) \<Longrightarrow> Popen cmd env \<in> set tr \<Longrightarrow>
   cmd = executable w # argv w \<and>
   (\<exists>i\<in>set js. env = get_distributed_env w (int i) (start_rank (get_distributed_params w) + int i)
                       (world_size (get_distributed_params w)))"
proof (induction js arbitrary: ws tr ws' r)
  case Nil
  then show ?case by simp
next
  case (Cons j js)
  show ?case
  proof (cases "popen w j")
    case Returned
    obtain tr0 ws0 r0 where rec: "spawn_loop w js (ws @ [j]) = (tr0, ws0, r0)"
      by (cases "spawn_loop w js (ws @ [j])") auto
    with Cons.prems Returned have "tr = Popen (executable w # argv w)
       (get_distributed_env w (int j) (start_rank (get_distributed_params w) + int j)
          (world_size (get_distributed_params w))) # tr0" by (simp add: Let_def)
    with Cons.prems(2) Cons.IH [OF rec] show ?thesis by auto
  next
    case (Raised e)
    with Cons.prems have "tr = [Popen (executable w # argv w)
       (get_distributed_env w (int j) (start_rank (get_distributed_params w) + int j)
          (world_size (get_distributed_params w)))]" by (auto simp: Let_def)
    with Cons.prems(2) show ?thesis by auto
  qed
qed

lemma wait_loop_trace:
  "wait_loop w ps = (tr, r) \<Longrightarrow> \<forall>ev\<in>set tr. \<exists>p. ev = Wait p"
proof (induction ps arbitrary: tr r)
  case Nil
  then show ?case by simp
next
  case (Cons p ps)
  then show ?case
    by (cases "wait w p"; cases "wait_loop w ps") auto
qed

lemma wait_loop_raised:
  "wait_loop w ps = (tr, r) \<Longrightarrow> Wait p \<in> set tr \<Longrightarrow> wait w p = Inl e \<Longrightarrow> r = Raised e"
proof (induction ps arbitrary: tr r)
  case Nil
  then show ?case by simp
next
  case (Cons q ps)
  then show ?case
    by (cases "wait w q"; cases "wait_loop w ps") auto
qed

lemma wait_loop_raised_by:
  "wait_loop w ps = (tr, Raised e) \<Longrightarrow> \<exists>p\<in>set ps. wait w p = Inl e"
proof (induction ps arbitrary: tr)
  case Nil
  then show ?case by simp
next
  case (Cons q ps)
  then show ?case
    by (cases "wait w q"; cases "wait_loop w ps") auto
qed

lemma wait_loop_shape:
  "\<exists>j r. j \<le> length ps \<and> wait_loop w ps = (map Wait (take j ps), r) \<and>
         (r = Returned \<longrightarrow> j = length ps) \<and>
         ((\<forall>p\<in>set ps. \<exists>s. wait w p = Inr s) \<longrightarrow> r = Returned)"
proof (induction ps)
  case Nil
  then show ?case by simp
next
  case (Cons p ps)
  show ?case
  proof (cases "wait w p")
    case (Inl e)
    then have "Suc 0 \<le> length (p # ps) \<and>
        wait_loop w (p # ps) = (map Wait (take (Suc 0) (p # ps)), Raised e) \<and>
        (Raised e = Returned \<longrightarrow> Suc 0 = length (p # ps)) \<and>
        ((\<forall>q\<in>set (p # ps). \<exists>s. wait w q = Inr s) \<longrightarrow> Raised e = Returned)"
      by simp
    then show ?thesis by blast
  next
    case (Inr s)
    from Cons obtain j r where jr: "j \<le> length ps" "wait_loop w ps = (map Wait (take j ps), r)"
      "r = Returned \<longrightarrow> j = length ps" "(\<forall>p\<in>set ps. \<exists>s. wait w p = Inr s) \<longrightarrow> r = Returned"
      by blast
    with Inr have "Suc j \<le> length (p # ps) \<and>
        wait_loop w (p # ps) = (map Wait (take (Suc j) (p # ps)), r) \<and>
        (r = Returned \<longrightarrow> Suc j = length (p # ps)) \<and>
        ((\<forall>q\<in>set (p # ps). \<exists>s. wait w q = Inr s) \<longrightarrow> r = Returned)"
      by simp
    then show ?thesis by blast
  qed
qed

lemma spawn_loop_wait_update:
  "spawn_loop (w\<lparr>wait := g\<rparr>) js ws = spawn_loop w js ws"
  by (induction js arbitrary: ws) (simp_all add: Let_def split: result.split)

lemma wait_loop_status_update:
  "wait_loop (w\<lparr>wait := (\<lambda>p. map_sum id (f p) (wait w p))\<rparr>) ps = wait_loop w ps"
proof (induction ps)
  case Nil
  then show ?case by simp
next
  case (Cons p ps)
  then show ?case by (cases "wait w p") simp_all
qed

lemma spawn_loop_worker_fn_update:
  "spawn_loop (w\<lparr>worker_fn := g\<rparr>) js ws = spawn_loop w js ws"
  by (induction js arbitrary: ws) (simp_all add: Let_def split: result.split)

lemma wait_loop_worker_fn_update:
  "wait_loop (w\<lparr>worker_fn := g\<rparr>) ps = wait_loop w ps"
  by (induction ps) (simp_all split: sum.split)

subsection \<open>Properties of the try block\<close>

lemma try_block_shape:
  assumes "try_block w = (tr, ws, r)"
  shows "ws = takeWhile (\<lambda>i. popen w i = Returned) [0..<device_count w]"
    and "\<forall>ev\<in>set tr. \<not> is_Kill ev"
    and "Wait p \<in> set tr \<Longrightarrow> wait w p = Inl e \<Longrightarrow> r = Raised e"
    and "length ws < device_count w \<Longrightarrow> r = popen w (length ws)"
proof -
  obtain tr1 ws1 r1 where sp: "spawn_loop w [0..<device_count w] [] = (tr1, ws1, r1)"
    by (cases "spawn_loop w [0..<device_count w] []") auto
  obtain tr2 r2 where wt: "wait_loop w ws1 = (tr2, r2)"
    by (cases "wait_loop w ws1") auto
  from assms sp wt have ws: "ws = ws1"
    by (cases r1) (simp_all add: try_block_def)
  from spawn_loop_workers [OF sp] ws
  show "ws = takeWhile (\<lambda>i. popen w i = Returned) [0..<device_count w]" by simp
  from assms sp wt have tr: "tr = tr1 \<or> tr = tr1 @ tr2"
    by (cases r1) (simp_all add: try_block_def)
  from spawn_loop_trace [OF sp] have "\<forall>ev\<in>set tr1. \<not> is_Kill ev"
    by (metis is_Kill.simps(5) is_Popen.elims(2))
  moreover from wait_loop_trace [OF wt] have "\<forall>ev\<in>set tr2. \<not> is_Kill ev"
    by auto
  ultimately show "\<forall>ev\<in>set tr. \<not> is_Kill ev" using tr by auto
  {
    assume a: "Wait p \<in> set tr" "wait w p = Inl e"
    from spawn_loop_trace [OF sp] have no: "Wait p \<notin> set tr1" by auto
    show "r = Raised e"
    proof (cases r1)
      case Returned
      with assms sp wt have "tr = tr1 @ tr2" "r = r2" by (simp_all add: try_block_def)
      with a no wait_loop_raised [OF wt] show ?thesis by auto
    next
      case (Raised e')
      with assms sp have "tr = tr1" by (simp add: try_block_def)
      with a no show ?thesis by simp
    qed
  }
  {
    assume a: "length ws < device_count w"
    from spawn_loop_outcome [OF sp] a ws have r1: "r1 = popen w (length ws)" "r1 \<noteq> Returned"
      by auto
    then obtain e' where e': "r1 = Raised e'" by (metis result.exhaust)
    with assms sp have "r = Raised e'" by (simp add: try_block_def)
    with r1 e' show "r = popen w (length ws)" by simp
  }
qed

lemma try_block_raised:
  assumes "try_block w = (tr, ws, Raised e)"
  shows "(\<exists>i<device_count w. popen w i = Raised e) \<or> (\<exists>p<device_count w. wait w p = Inl e)"
proof -
  obtain tr1 ws1 r1 where sp: "spawn_loop w [0..<device_count w] [] = (tr1, ws1, r1)"
    by (cases "spawn_loop w [0..<device_count w] []") auto
  show ?thesis
  proof (cases r1)
    case Returned
    obtain tr2 r2 where wt: "wait_loop w ws1 = (tr2, r2)"
      by (cases "wait_loop w ws1") auto
    with assms sp Returned have "r2 = Raised e" by (simp add: try_block_def)
    with wait_loop_raised_by wt obtain p where p: "p \<in> set ws1" "wait w p = Inl e" by blast
    from spawn_loop_workers [OF sp]
    have "ws1 = takeWhile (\<lambda>i. popen w i = Returned) [0..<device_count w]" by simp
    with p(1) have "p \<in> set [0..<device_count w]" by (metis set_takeWhileD)
    then have "p < device_count w" by simp
    with p(2) show ?thesis by blast
  next
    case (Raised e')
    with assms sp have "e' = e" by (simp add: try_block_def)
    with Raised sp have "spawn_loop w [0..<device_count w] [] = (tr1, ws1, Raised e)" by simp
    from spawn_loop_raised [OF this] obtain i where "i \<in> set [0..<device_count w]" "popen w i = Raised e"
      by blast
    then have "i < device_count w \<and> popen w i = Raised e" by simp
    then show ?thesis by blast
  qed
qed

lemma spawn_branch_run:
  "distributed \<Longrightarrow> 1 < world_size (get_distributed_params w) \<Longrightarrow>
   local_rank (get_distributed_params w) = None \<Longrightarrow>
   distributed_cmd_run w distributed args = spawn_branch w"
  by (simp add: distributed_cmd_run_def)

subsection \<open>The launcher: exit paths\<close>

text \<open>
  Claim C1. In the spawn branch (\<^verbatim>\<open>distributed\<close> true, world size above 1, no local rank)
  the trace of the launcher is a body without any \<^verbatim>\<open>kill\<close> followed by one \<^verbatim>\<open>kill\<close> for
  every handle in \<^verbatim>\<open>workers\<close>, and \<^verbatim>\<open>workers\<close> holds every child that was created (the
  local ranks up to the first \<^verbatim>\<open>Popen\<close> call that raised). This holds however the \<^verbatim>\<open>try\<close>
  block ended, so the kills come before the launcher returns or lets the exception
  through. A \<^verbatim>\<open>wait\<close> call that was made and raised gives the launcher's outcome: the
  exception is not swallowed; the same holds for a \<^verbatim>\<open>Popen\<close> call that raised.
\<close>
theorem C1_kill_on_every_exit_path:
  assumes "distributed"
    and "1 < world_size (get_distributed_params w)"
    and "local_rank (get_distributed_params w) = None"
  shows "\<exists>body ws res.
           distributed_cmd_run w distributed args =
             \<lparr>trace = body @ map Kill ws, workers = ws, outcome = res\<rparr> \<and>
           ws = takeWhile (\<lambda>i. popen w i = Returned) [0..<device_count w] \<and>
           (\<forall>ev\<in>set body. \<not> is_Kill ev) \<and>
           (\<forall>p e. Wait p \<in> set body \<and> wait w p = Inl e \<longrightarrow> res = Raised e) \<and>
           (length ws < device_count w \<longrightarrow> res = popen w (length ws))"
proof -
  obtain body ws res where tb: "try_block w = (body, ws, res)"
    by (cases "try_block w") auto
  from assms tb have "distributed_cmd_run w distributed args =
      \<lparr>trace = body @ map Kill ws, workers = ws, outcome = res\<rparr>"
    by (simp add: spawn_branch_run spawn_branch_def kill_loop_def)
  with try_block_shape [OF tb] show ?thesis by blast
qed

theorem C1_witness:
  "distributed_cmd_run
     (demo_world\<lparr>wait := (\<lambda>p. if p = 0 then Inl (Exn ''KeyboardInterrupt'') else Inr 0)\<rparr>)
     True [] =
   \<lparr>trace =
      [Popen [''/usr/bin/python'', ''train.py'', ''--distributed'']
         [(''LOCAL_RANK'', 0), (''RANK'', 4), (''WORLD_SIZE'', 2)],
       Popen [''/usr/bin/python'', ''train.py'', ''--distributed'']
         [(''LOCAL_RANK'', 1), (''RANK'', 5), (''WORLD_SIZE'', 2)],
       Wait 0] @ map Kill [0, 1],
    workers = [0, 1], outcome = Raised (Exn ''KeyboardInterrupt'')\<rparr>"
proof -
  let ?w = "demo_world\<lparr>wait := (\<lambda>p. if p = 0 then Inl (Exn ''KeyboardInterrupt'') else Inr 0)\<rparr>"
  have h: "1 < world_size (get_distributed_params ?w)" "local_rank (get_distributed_params ?w) = None"
    by (simp_all add: demo_world_def)
  have pop: "takeWhile (\<lambda>i. popen ?w i = Returned) [0..<device_count ?w] = [0, 1]"
    by (simp add: demo_world_def upt_rec)
  from C1_kill_on_every_exit_path [OF TrueI h, of "[]"]
  obtain body ws res where
    run: "distributed_cmd_run ?w True [] = \<lparr>trace = body @ map Kill ws, workers = ws, outcome = res\<rparr>"
    and ws: "ws = takeWhile (\<lambda>i. popen ?w i = Returned) [0..<device_count ?w]"
    and raised: "\<forall>p e. Wait p \<in> set body \<and> wait ?w p = Inl e \<longrightarrow> res = Raised e"
    by blast
  have ev: "distributed_cmd_run ?w True [] =
   \<lparr>trace =
      [Popen [''/usr/bin/python'', ''train.py'', ''--distributed'']
         [(''LOCAL_RANK'', 0), (''RANK'', 4), (''WORLD_SIZE'', 2)],
       Popen [''/usr/bin/python'', ''train.py'', ''--distributed'']
         [(''LOCAL_RANK'', 1), (''RANK'', 5), (''WORLD_SIZE'', 2)],
       Wait 0] @ map Kill [0, 1],
    workers = [0, 1], outcome = Raised (Exn ''KeyboardInterrupt'')\<rparr>"
    by (simp add: demo_world_def distributed_cmd_run_def spawn_branch_def try_block_def
        kill_loop_def upt_rec)
  with run ws pop show ?thesis by simp
qed

text \<open>
  Claim C2, as amended. The launcher drops the exit status \<^verbatim>\<open>wait\<close> returns: in the spawn
  branch its run is the same whatever statuses the workers exit with. It lets an error
  through only when a \<^verbatim>\<open>Popen\<close> call or a \<^verbatim>\<open>wait\<close> call itself raised, and returns normally
  when none did. (As stated, the claim asks for an error whenever a worker exits with a
  status other than 0; the counterexample below is a run where worker 0 exits with
  status 1 and the launcher returns normally.)
\<close>
theorem C2_exit_status_ignored:
  assumes "distributed"
    and "1 < world_size (get_distributed_params w)"
    and "local_rank (get_distributed_params w) = None"
  shows "distributed_cmd_run (w\<lparr>wait := (\<lambda>p. map_sum id (f p) (wait w p))\<rparr>) distributed args =
           distributed_cmd_run w distributed args \<and>
         (\<forall>e. outcome (distributed_cmd_run w distributed args) = Raised e \<longrightarrow>
              (\<exists>i<device_count w. popen w i = Raised e) \<or>
              (\<exists>p<device_count w. wait w p = Inl e)) \<and>
         ((\<forall>i<device_count w. popen w i = Returned) \<and>
          (\<forall>p<device_count w. \<exists>s. wait w p = Inr s) \<longrightarrow>
          outcome (distributed_cmd_run w distributed args) = Returned)"
proof -
  let ?w' = "w\<lparr>wait := (\<lambda>p. map_sum id (f p) (wait w p))\<rparr>"
  have "try_block ?w' = try_block w"
    by (simp add: try_block_def spawn_loop_wait_update wait_loop_status_update
        split: prod.split result.split)
  then have "spawn_branch ?w' = spawn_branch w"
    by (simp add: spawn_branch_def)
  with assms have a: "distributed_cmd_run ?w' distributed args = distributed_cmd_run w distributed args"
    by (simp add: spawn_branch_run)
  obtain tr ws r where tb: "try_block w = (tr, ws, r)"
    by (cases "try_block w") auto
  with assms have out: "outcome (distributed_cmd_run w distributed args) = r"
    by (simp add: spawn_branch_run spawn_branch_def)
  have b: "\<forall>e. outcome (distributed_cmd_run w distributed args) = Raised e \<longrightarrow>
              (\<exists>i<device_count w. popen w i = Raised e) \<or>
              (\<exists>p<device_count w. wait w p = Inl e)"
  proof (intro allI impI)
    fix e assume "outcome (distributed_cmd_run w distributed args) = Raised e"
    with out tb have "try_block w = (tr, ws, Raised e)" by simp
    then show "(\<exists>i<device_count w. popen w i = Raised e) \<or>
              (\<exists>p<device_count w. wait w p = Inl e)" by (rule try_block_raised)
  qed
  have c: "(\<forall>i<device_count w. popen w i = Returned) \<and>
          (\<forall>p<device_count w. \<exists>s. wait w p = Inr s) \<longrightarrow>
          outcome (distributed_cmd_run w distributed args) = Returned"
  proof (cases "outcome (distributed_cmd_run w distributed args)")
    case Returned
    then show ?thesis by simp
  next
    case (Raised e)
    with b have "(\<exists>i<device_count w. popen w i = Raised e) \<or>
              (\<exists>p<device_count w. wait w p = Inl e)" by blast
    then show ?thesis by auto
  qed
  from a b c show ?thesis by blast
qed

theorem C2_witness:
  "distributed_cmd_run (demo_world\<lparr>wait := (\<lambda>p. Inr (int p + 7))\<rparr>) True [] =
     distributed_cmd_run demo_world True [] \<and>
   outcome (distributed_cmd_run demo_world True []) = Returned"
proof -
  have h: "1 < world_size (get_distributed_params demo_world)"
    "local_rank (get_distributed_params demo_world) = None"
    by (simp_all add: demo_world_def)
  have ok: "(\<forall>i<device_count demo_world. popen demo_world i = Returned) \<and>
          (\<forall>p<device_count demo_world. \<exists>s. wait demo_world p = Inr s)"
    by (simp add: demo_world_def)
  have upd: "demo_world\<lparr>wait := (\<lambda>p. map_sum id (\<lambda>s. int p + 7) (wait demo_world p))\<rparr> =
      demo_world\<lparr>wait := (\<lambda>p. Inr (int p + 7))\<rparr>"
    by (simp add: demo_world_def)
  from C2_exit_status_ignored [OF TrueI h, of "\<lambda>p s. int p + 7" "[]"] ok upd
  show ?thesis by simp
qed

theorem C2_counterexample:
  "wait (demo_world\<lparr>wait := (\<lambda>p. if p = 0 then Inr 1 else Inr 0)\<rparr>) 0 = Inr 1 \<and>
   distributed_cmd_run (demo_world\<lparr>wait := (\<lambda>p. if p = 0 then Inr 1 else Inr 0)\<rparr>) True [] =
     \<lparr>trace =
        [Popen [''/usr/bin/python'', ''train.py'', ''--distributed'']
           [(''LOCAL_RANK'', 0), (''RANK'', 4), (''WORLD_SIZE'', 2)],
         Popen [''/usr/bin/python'', ''train.py'', ''--distributed'']
           [(''LOCAL_RANK'', 1), (''RANK'', 5), (''WORLD_SIZE'', 2)],
         Wait 0, Wait 1, Kill 0, Kill 1],
      workers = [0, 1], outcome = Returned\<rparr>"
  by (simp add: demo_world_def distributed_cmd_run_def spawn_branch_def try_block_def
      kill_loop_def upt_rec)

subsection \<open>The launcher: the three branches\<close>

text \<open>
  Claim C3. In the spawn branch with \<open>N\<close> devices, when the \<^verbatim>\<open>Popen\<close> calls return: the
  launcher makes exactly \<open>N\<close> \<^verbatim>\<open>Popen\<close> calls, the one for local rank \<open>i\<close> with the command
  \<^verbatim>\<open>[sys.executable] + sys.argv\<close> and the environment
  \<^verbatim>\<open>get_distributed_env(i, start_rank + i, world_size)\<close>, for \<open>i = 0, ..., N - 1\<close> in this
  order; it tracks the \<open>N\<close> handles; it then waits on them in order, and a run that
  returns has waited on all \<open>N\<close> of them before its kills and its return. It returns
  when every \<^verbatim>\<open>wait\<close> call returns.
\<close>
theorem C3_spawns_every_rank:
  assumes "distributed"
    and "1 < world_size (get_distributed_params w)"
    and "local_rank (get_distributed_params w) = None"
    and "\<forall>i<device_count w. popen w i = Returned"
  shows "\<exists>j res. j \<le> device_count w \<and>
           distributed_cmd_run w distributed args =
             \<lparr>trace =
                map (\<lambda>i. Popen (executable w # argv w)
                            (get_distributed_env w (int i)
                               (start_rank (get_distributed_params w) + int i)
                               (world_size (get_distributed_params w))))
                  [0..<device_count w] @
                map Wait [0..<j] @ map Kill [0..<device_count w],
              workers = [0..<device_count w], outcome = res\<rparr> \<and>
           (res = Returned \<longrightarrow> j = device_count w) \<and>
           ((\<forall>p<device_count w. \<exists>s. wait w p = Inr s) \<longrightarrow> res = Returned)"
proof -
  let ?N = "device_count w"
  from assms(4) have sp: "spawn_loop w [0..<?N] [] =
     (map (\<lambda>i. Popen (executable w # argv w)
                (get_distributed_env w (int i) (start_rank (get_distributed_params w) + int i)
                   (world_size (get_distributed_params w)))) [0..<?N],
      [0..<?N], Returned)"
    using spawn_loop_all [of "[0..<?N]" w "[]"] by simp
  from wait_loop_shape [of "[0..<?N]" w] obtain j r where
    jr0: "j \<le> length [0..<?N]" "wait_loop w [0..<?N] = (map Wait (take j [0..<?N]), r)"
      "r = Returned \<longrightarrow> j = length [0..<?N]"
      "(\<forall>p\<in>set [0..<?N]. \<exists>s. wait w p = Inr s) \<longrightarrow> r = Returned"
    by blast
  then have jr: "j \<le> ?N" "wait_loop w [0..<?N] = (map Wait (take j [0..<?N]), r)"
      "r = Returned \<longrightarrow> j = ?N" "(\<forall>p<?N. \<exists>s. wait w p = Inr s) \<longrightarrow> r = Returned"
    by simp_all
  from jr(1) have tk: "take j [0..<?N] = [0..<j]" by (simp add: take_upt)
  from assms(1-3) sp jr(2) tk have "distributed_cmd_run w distributed args =
             \<lparr>trace =
                map (\<lambda>i. Popen (executable w # argv w)
                            (get_distributed_env w (int i)
                               (start_rank (get_distributed_params w) + int i)
                               (world_size (get_distributed_params w))))
                  [0..<?N] @
                map Wait [0..<j] @ map Kill [0..<?N],
              workers = [0..<?N], outcome = r\<rparr>"
    by (simp add: spawn_branch_run spawn_branch_def try_block_def kill_loop_def)
  with jr(1,3,4) show ?thesis by blast
qed

theorem C3_witness:
  "distributed_cmd_run demo_world True [''a''] =
     \<lparr>trace =
        [Popen [''/usr/bin/python'', ''train.py'', ''--distributed'']
           [(''LOCAL_RANK'', 0), (''RANK'', 4), (''WORLD_SIZE'', 2)],
         Popen [''/usr/bin/python'', ''train.py'', ''--distributed'']
           [(''LOCAL_RANK'', 1), (''RANK'', 5), (''WORLD_SIZE'', 2)],
         Wait 0, Wait 1, Kill 0, Kill 1],
      workers = [0, 1], outcome = Returned\<rparr>"
proof -
  have h: "1 < world_size (get_distributed_params demo_world)"
    "local_rank (get_distributed_params demo_world) = None"
    "\<forall>i<device_count demo_world. popen demo_world i = Returned"
    by (simp_all add: demo_world_def)
  have w: "\<forall>p<device_count demo_world. \<exists>s. wait demo_world p = Inr s"
    by (simp add: demo_world_def)
  have n: "device_count demo_world = 2" by (simp add: demo_world_def)
  from C3_spawns_every_rank [OF TrueI h, of "[''a'']"] w
  have "distributed_cmd_run demo_world True [''a''] =
             \<lparr>trace =
                map (\<lambda>i. Popen (executable demo_world # argv demo_world)
                            (get_distributed_env demo_world (int i)
                               (start_rank (get_distributed_params demo_world) + int i)
                               (world_size (get_distributed_params demo_world))))
                  [0..<device_count demo_world] @
                map Wait [0..<device_count demo_world] @ map Kill [0..<device_count demo_world],
              workers = [0..<device_count demo_world], outcome = Returned\<rparr>"
    by auto
  then show ?thesis
    by (simp add: n upt_rec) (simp add: demo_world_def)
qed

text \<open>
  Claim C4. When \<^verbatim>\<open>distributed\<close> is false, or the world size is at most 1, the only call
  the launcher makes is \<^verbatim>\<open>worker_fn(*args, **kwargs)\<close>, once, in the calling process: no
  device is bound, no process group is initialised, no subprocess is created, and the
  launcher ends as the callback does.
\<close>
theorem C4_runs_worker_in_process:
  assumes "\<not> distributed \<or> world_size (get_distributed_params w) \<le> 1"
  shows "distributed_cmd_run w distributed args =
           \<lparr>trace = [WorkerFn args], workers = [], outcome = worker_fn w args\<rparr>"
  using assms by (auto simp add: distributed_cmd_run_def)

theorem C4_witness:
  "distributed_cmd_run demo_world False [''cfg''] =
     \<lparr>trace = [WorkerFn [''cfg'']], workers = [], outcome = Returned\<rparr> \<and>
   distributed_cmd_run
     (demo_world\<lparr>get_distributed_params := \<lparr>local_rank = Some 0, world_size = 1, start_rank = 0\<rparr>\<rparr>)
     True [''cfg''] =
     \<lparr>trace = [WorkerFn [''cfg'']], workers = [], outcome = Returned\<rparr>"
  using C4_runs_worker_in_process [of False demo_world "[''cfg'']"]
    C4_runs_worker_in_process [of True
      "demo_world\<lparr>get_distributed_params := \<lparr>local_rank = Some 0, world_size = 1, start_rank = 0\<rparr>\<rparr>"
      "[''cfg'']"]
  by (simp add: demo_world_def)

text \<open>
  Claim C5. When \<^verbatim>\<open>distributed\<close> is true, the world size is above 1 and the local rank is
  \<open>n\<close>: the launcher calls \<^verbatim>\<open>torch.cuda.set_device(n)\<close>, then
  \<^verbatim>\<open>init_process_group(backend="nccl", init_method="env://")\<close>, then \<^verbatim>\<open>worker_fn\<close> on the
  arguments, once each and in this order, and nothing else; it creates no subprocess.
  The sequence is complete when the first two calls return, and stops after the call
  that raised otherwise.
\<close>
theorem C5_worker_process:
  assumes "distributed"
    and "1 < world_size (get_distributed_params w)"
    and "local_rank (get_distributed_params w) = Some n"
  shows "(set_device w n = Returned \<and> init_process_group w ''nccl'' ''env://'' = Returned \<longrightarrow>
            distributed_cmd_run w distributed args =
              \<lparr>trace = [SetDevice n, InitProcessGroup ''nccl'' ''env://'', WorkerFn args],
               workers = [], outcome = worker_fn w args\<rparr>) \<and>
         trace (distributed_cmd_run w distributed args) \<in>
           {[SetDevice n],
            [SetDevice n, InitProcessGroup ''nccl'' ''env://''],
            [SetDevice n, InitProcessGroup ''nccl'' ''env://'', WorkerFn args]} \<and>
         workers (distributed_cmd_run w distributed args) = []"
  using assms
  by (simp add: distributed_cmd_run_def worker_branch_def split: result.split)

theorem C5_witness:
  "distributed_cmd_run
     (demo_world\<lparr>get_distributed_params := \<lparr>local_rank = Some 1, world_size = 2, start_rank = 4\<rparr>\<rparr>)
     True [''cfg''] =
     \<lparr>trace = [SetDevice 1, InitProcessGroup ''nccl'' ''env://'', WorkerFn [''cfg'']],
      workers = [], outcome = Returned\<rparr>"
  using C5_worker_process [of True
      "demo_world\<lparr>get_distributed_params := \<lparr>local_rank = Some 1, world_size = 2, start_rank = 4\<rparr>\<rparr>"
      1 "[''cfg'']"]
  by (simp add: demo_world_def)

text \<open>
  Claim C6. In the spawn branch with no device, the launcher makes no call at all (no
  \<^verbatim>\<open>Popen\<close>, no \<^verbatim>\<open>wait\<close>, no \<^verbatim>\<open>kill\<close>), tracks no handle and returns normally.
\<close>
theorem C6_no_devices:
  assumes "distributed"
    and "1 < world_size (get_distributed_params w)"
    and "local_rank (get_distributed_params w) = None"
    and "device_count w = 0"
  shows "distributed_cmd_run w distributed args =
           \<lparr>trace = [], workers = [], outcome = Returned\<rparr>"
  using assms
  by (simp add: spawn_branch_run spawn_branch_def try_block_def kill_loop_def)

theorem C6_witness:
  "distributed_cmd_run (demo_world\<lparr>device_count := 0\<rparr>) True [''cfg''] =
     \<lparr>trace = [], workers = [], outcome = Returned\<rparr>"
  using C6_no_devices [of True "demo_world\<lparr>device_count := 0\<rparr>" "[''cfg'']"]
  by (simp add: demo_world_def)

text \<open>The launcher in a process agrees with the launcher against a world.\<close>

lemma spawn_loop_in_process_of:
  "fst (spawn_loop_in (process_of w) (get_distributed_params w) [k..<n] ws k) =
     spawn_loop w [k..<n] ws"
proof (induction "n - k" arbitrary: k ws)
  case 0
  then show ?case by simp
next
  case (Suc m)
  then have lt: "k < n" and m: "m = n - Suc k" by simp_all
  from lt have up: "[k..<n] = k # [Suc k..<n]" by (simp add: upt_conv_Cons)
  show ?case
  proof (cases "popen w k")
    case Returned
    obtain tr ws' r s3 where rec:
      "spawn_loop_in (process_of w) (get_distributed_params w) [Suc k..<n] (ws @ [k]) (Suc k) =
         ((tr, ws', r), s3)"
      by (metis prod_cases3 surj_pair)
    from Suc.hyps(1) [OF m, of "ws @ [k]"] rec
    have "spawn_loop w [Suc k..<n] (ws @ [k]) = (tr, ws', r)" by simp
    with Returned rec show ?thesis by (simp add: up process_of_def Let_def)
  next
    case (Raised e)
    then show ?thesis by (simp add: up process_of_def Let_def)
  qed
qed

lemma wait_loop_in_process_of:
  "wait_loop_in (process_of w) ps s = (wait_loop w ps, s)"
proof (induction ps)
  case Nil
  then show ?case by simp
next
  case (Cons p ps)
  then show ?case
    by (cases "wait w p"; cases "wait_loop w ps") (simp_all add: process_of_def)
qed

lemma kill_loop_in_process_of:
  "kill_loop_in (process_of w) ps s = (kill_loop ps, s)"
  by (induction ps arbitrary: s) (simp_all add: kill_loop_def process_of_def)

lemma distributed_cmd_run_in_process_of:
  "fst (distributed_cmd_run_in (process_of w) 0 distributed args) =
     distributed_cmd_run w distributed args"
proof -
  have gp: "in_get_distributed_params (process_of w) 0 = (get_distributed_params w, 0)"
    and dc: "in_device_count (process_of w) 0 = (device_count w, 0)"
    by (simp_all add: process_of_def)
  obtain tr ws r s1 where
    sp: "spawn_loop_in (process_of w) (get_distributed_params w) [0..<device_count w] [] 0 =
           ((tr, ws, r), s1)"
    by (metis prod_cases3 surj_pair)
  with spawn_loop_in_process_of [of w 0 "device_count w" "[]"]
  have sp': "spawn_loop w [0..<device_count w] [] = (tr, ws, r)" by simp
  have tb: "fst (try_block_in (process_of w) (get_distributed_params w) 0) = try_block w"
    by (cases r; cases "wait_loop w ws")
      (simp_all add: try_block_in_def try_block_def dc sp sp' wait_loop_in_process_of)
  have sb: "fst (spawn_branch_in (process_of w) (get_distributed_params w) 0) = spawn_branch w"
  proof -
    obtain tr' ws' r' s' where t:
      "try_block_in (process_of w) (get_distributed_params w) 0 = ((tr', ws', r'), s')"
      by (metis prod_cases3 surj_pair)
    with tb have "try_block w = (tr', ws', r')" by simp
    with t show ?thesis
      by (simp add: spawn_branch_in_def spawn_branch_def kill_loop_in_process_of)
  qed
  have wb: "\<And>n. fst (worker_branch_in (process_of w) n args 0) = worker_branch w n args"
    by (simp add: worker_branch_in_def worker_branch_def process_of_def split: result.split)
  show ?thesis
  proof (cases "\<not> distributed \<or> world_size (get_distributed_params w) \<le> 1")
    case True
    then show ?thesis
      by (auto simp add: distributed_cmd_run_in_def distributed_cmd_run_def gp)
        (simp_all add: process_of_def)
  next
    case False
    then show ?thesis
      by (cases "local_rank (get_distributed_params w)")
        (simp_all add: distributed_cmd_run_in_def distributed_cmd_run_def gp sb wb)
  qed
qed

text \<open>
  Claim C8. Take any process, in any state, and call the launcher twice with
  \<^verbatim>\<open>distributed\<close> false, the second call in the state the first one left. Each call calls
  \<^verbatim>\<open>get_distributed_params\<close> and then \<^verbatim>\<open>worker_fn\<close> on its arguments, once, and nothing
  else; it tracks no process handle; and the state it leaves is the state these two
  collaborators left, so the launcher adds nothing of its own to the state of the
  process. The second call is the same function of the state it starts in as the
  first: it makes the same single invocation whatever the first call and its callback
  did to the process, the distributed parameters included.
\<close>

theorem C8_two_calls_not_distributed:
  "\<exists>r1 s1 r2 s2.
     distributed_cmd_run_in P s False a1 = (r1, s1) \<and>
     distributed_cmd_run_in P s1 False a2 = (r2, s2) \<and>
     r1 = \<lparr>trace = [WorkerFn a1], workers = [],
           outcome = fst (in_worker_fn P a1 (snd (in_get_distributed_params P s)))\<rparr> \<and>
     s1 = snd (in_worker_fn P a1 (snd (in_get_distributed_params P s))) \<and>
     r2 = \<lparr>trace = [WorkerFn a2], workers = [],
           outcome = fst (in_worker_fn P a2 (snd (in_get_distributed_params P s1)))\<rparr> \<and>
     s2 = snd (in_worker_fn P a2 (snd (in_get_distributed_params P s1)))"
proof -
  have one: "\<And>s a. distributed_cmd_run_in P s False a =
      (\<lparr>trace = [WorkerFn a], workers = [],
        outcome = fst (in_worker_fn P a (snd (in_get_distributed_params P s)))\<rparr>,
       snd (in_worker_fn P a (snd (in_get_distributed_params P s))))"
    by (simp add: distributed_cmd_run_in_def split: prod.split)
  show ?thesis by (simp add: one)
qed

theorem C8_witness:
  "distributed_cmd_run_in env_process \<lparr>local_rank = None, world_size = 1, start_rank = 0\<rparr> False [''cfg''] =
     (\<lparr>trace = [WorkerFn [''cfg'']], workers = [], outcome = Returned\<rparr>,
      \<lparr>local_rank = Some 3, world_size = 8, start_rank = 0\<rparr>) \<and>
   distributed_cmd_run_in env_process \<lparr>local_rank = Some 3, world_size = 8, start_rank = 0\<rparr> False [''cfg''] =
     (\<lparr>trace = [WorkerFn [''cfg'']], workers = [], outcome = Returned\<rparr>,
      \<lparr>local_rank = Some 3, world_size = 8, start_rank = 0\<rparr>)"
  using C8_two_calls_not_distributed
    [of env_process "\<lparr>local_rank = None, world_size = 1, start_rank = 0\<rparr>" "[''cfg'']" "[''cfg'']"]
  by (simp add: env_process_def)

text \<open>
  With \<^verbatim>\<open>distributed\<close> true the same two calls differ: the callback of the first call
  changed the distributed parameters, and the second call takes the branch of a
  spawned worker.
\<close>

lemma second_distributed_call_differs:
  "distributed_cmd_run_in env_process \<lparr>local_rank = None, world_size = 1, start_rank = 0\<rparr> True [''cfg''] =
     (\<lparr>trace = [WorkerFn [''cfg'']], workers = [], outcome = Returned\<rparr>,
      \<lparr>local_rank = Some 3, world_size = 8, start_rank = 0\<rparr>) \<and>
   distributed_cmd_run_in env_process \<lparr>local_rank = Some 3, world_size = 8, start_rank = 0\<rparr> True [''cfg''] =
     (\<lparr>trace = [SetDevice 3, InitProcessGroup ''nccl'' ''env://'', WorkerFn [''cfg'']],
       workers = [], outcome = Returned\<rparr>,
      \<lparr>local_rank = Some 3, world_size = 8, start_rank = 0\<rparr>)"
  by (simp add: distributed_cmd_run_in_def worker_branch_in_def env_process_def)

text \<open>
  Claim C9. In the spawn branch the launcher's run does not depend on the arguments
  given for \<^verbatim>\<open>worker_fn\<close> nor on \<^verbatim>\<open>worker_fn\<close> itself: the callback is never called, and
  every \<^verbatim>\<open>Popen\<close> call receives the command \<^verbatim>\<open>[sys.executable] + sys.argv\<close> and an
  environment built by \<^verbatim>\<open>get_distributed_env\<close> from a local rank, the start rank and the
  world size.
\<close>
theorem C9_arguments_unused:
  assumes "distributed"
    and "1 < world_size (get_distributed_params w)"
    and "local_rank (get_distributed_params w) = None"
  shows "distributed_cmd_run (w\<lparr>worker_fn := g\<rparr>) distributed args' =
           distributed_cmd_run w distributed args \<and>
         (\<forall>ev\<in>set (trace (distributed_cmd_run w distributed args)). \<not> is_WorkerFn ev) \<and>
         (\<forall>cmd env. Popen cmd env \<in> set (trace (distributed_cmd_run w distributed args)) \<longrightarrow>
            cmd = executable w # argv w \<and>
            (\<exists>i<device_count w.
               env = get_distributed_env w (int i)
                       (start_rank (get_distributed_params w) + int i)
                       (world_size (get_distributed_params w))))"
proof -
  have "try_block (w\<lparr>worker_fn := g\<rparr>) = try_block w"
    by (simp add: try_block_def spawn_loop_worker_fn_update wait_loop_worker_fn_update
        split: prod.split result.split)
  then have "spawn_branch (w\<lparr>worker_fn := g\<rparr>) = spawn_branch w"
    by (simp add: spawn_branch_def)
  with assms have a: "distributed_cmd_run (w\<lparr>worker_fn := g\<rparr>) distributed args' =
           distributed_cmd_run w distributed args"
    by (simp add: spawn_branch_run)
  obtain tr1 ws1 r1 where sp: "spawn_loop w [0..<device_count w] [] = (tr1, ws1, r1)"
    by (cases "spawn_loop w [0..<device_count w] []") auto
  obtain tr2 r2 where wt: "wait_loop w ws1 = (tr2, r2)"
    by (cases "wait_loop w ws1") auto
  from assms sp wt have tr: "set (trace (distributed_cmd_run w distributed args)) \<subseteq>
      set tr1 \<union> set tr2 \<union> set (map Kill ws1)"
    by (cases r1) (auto simp add: spawn_branch_run spawn_branch_def try_block_def kill_loop_def)
  have b: "\<forall>ev\<in>set (trace (distributed_cmd_run w distributed args)). \<not> is_WorkerFn ev"
  proof
    fix ev assume "ev \<in> set (trace (distributed_cmd_run w distributed args))"
    with tr have "ev \<in> set tr1 \<or> ev \<in> set tr2 \<or> ev \<in> set (map Kill ws1)" by auto
    then show "\<not> is_WorkerFn ev"
      using spawn_loop_trace [OF sp] wait_loop_trace [OF wt]
      by (cases ev) auto
  qed
  have c: "\<forall>cmd env. Popen cmd env \<in> set (trace (distributed_cmd_run w distributed args)) \<longrightarrow>
            cmd = executable w # argv w \<and>
            (\<exists>i<device_count w.
               env = get_distributed_env w (int i)
                       (start_rank (get_distributed_params w) + int i)
                       (world_size (get_distributed_params w)))"
  proof (intro allI impI)
    fix cmd env assume "Popen cmd env \<in> set (trace (distributed_cmd_run w distributed args))"
    with tr have "Popen cmd env \<in> set tr1 \<or> Popen cmd env \<in> set tr2 \<or> Popen cmd env \<in> set (map Kill ws1)"
      by auto
    with wait_loop_trace [OF wt] have "Popen cmd env \<in> set tr1" by auto
    from spawn_loop_calls [OF sp this]
    show "cmd = executable w # argv w \<and>
            (\<exists>i<device_count w.
               env = get_distributed_env w (int i)
                       (start_rank (get_distributed_params w) + int i)
                       (world_size (get_distributed_params w)))" by auto
  qed
  from a b c show ?thesis by blast
qed

theorem C9_witness:
  "distributed_cmd_run (demo_world\<lparr>worker_fn := (\<lambda>a. Raised (Exn ''boom''))\<rparr>) True [''x'', ''y''] =
     distributed_cmd_run demo_world True []"
proof -
  have h: "1 < world_size (get_distributed_params demo_world)"
    "local_rank (get_distributed_params demo_world) = None"
    by (simp_all add: demo_world_def)
  from C9_arguments_unused [OF TrueI h] show ?thesis by blast
qed

section \<open>Properties of the dictionary utilities\<close>

subsection \<open>What a call leaves unchanged\<close>

lemma unchanged_iff:
  "unchanged h h' \<longleftrightarrow> length h \<le> length h' \<and> (\<forall>i<length h. h' ! i = h ! i)"
proof
  assume u: "unchanged h h'"
  then have eq: "take (length h) h' = h" by (simp add: unchanged_def)
  then have "length (take (length h) h') = length h" by simp
  then have len: "length h \<le> length h'" by simp
  moreover have "\<forall>i<length h. h' ! i = h ! i"
  proof (intro allI impI)
    fix i assume "i < length h"
    then have "take (length h) h' ! i = h' ! i" by simp
    with eq show "h' ! i = h ! i" by simp
  qed
  ultimately show "length h \<le> length h' \<and> (\<forall>i<length h. h' ! i = h ! i)" by simp
next
  assume a: "length h \<le> length h' \<and> (\<forall>i<length h. h' ! i = h ! i)"
  then have "take (length h) h' = h"
    by (intro nth_equalityI) simp_all
  then show "unchanged h h'" by (simp add: unchanged_def)
qed

lemma unchanged_refl: "unchanged h h"
  by (simp add: unchanged_def)

lemma unchanged_trans: "unchanged h1 h2 \<Longrightarrow> unchanged h2 h3 \<Longrightarrow> unchanged h1 h3"
  by (auto simp add: unchanged_iff)

lemma unchanged_append: "unchanged h (h @ xs)"
  by (simp add: unchanged_def)

lemma unchanged_length: "unchanged h h' \<Longrightarrow> length h \<le> length h'"
  by (simp add: unchanged_iff)

lemma unchanged_but_refl: "unchanged_but d h h"
  by (simp add: unchanged_but_def)

lemma unchanged_but_trans:
  "unchanged_but d h1 h2 \<Longrightarrow> unchanged_but d h2 h3 \<Longrightarrow> unchanged_but d h1 h3"
  by (auto simp add: unchanged_but_def)

lemma unchanged_imp_but: "unchanged h h' \<Longrightarrow> unchanged_but d h h'"
  by (simp add: unchanged_iff unchanged_but_def)

lemma unchanged_but_setitem: "unchanged_but d h (setitem h d k v)"
  by (simp add: unchanged_but_def setitem_def)

lemma unchanged_but_fresh: "unchanged_but d h h' \<Longrightarrow> length h \<le> d \<Longrightarrow> unchanged h h'"
  by (auto simp add: unchanged_iff unchanged_but_def)

lemma unchanged_but_shrink:
  "unchanged h0 h \<Longrightarrow> unchanged_but d h h' \<Longrightarrow> length h0 \<le> d \<Longrightarrow> unchanged h0 h'"
  by (auto simp add: unchanged_iff unchanged_but_def)

lemma length_setitem [simp]: "length (setitem h d k v) = length h"
  by (simp add: setitem_def)

lemma deepcopy_frame:
  "deepcopy n h memo v = (h', memo', r) \<Longrightarrow> unchanged h h'"
  "copy_items n h memo y its = (h', memo', r) \<Longrightarrow> unchanged_but y h h'"
proof (induction n h memo v and n h memo y its arbitrary: h' memo' r and h' memo' r
    rule: deepcopy_copy_items.induct)
  case (5 h memo a)
  then show ?case by (auto simp: unchanged_refl split: option.splits)
next
  case (6 n h memo a)
  show ?case
  proof (cases "memo a")
    case None
    with 6(2) have ci: "copy_items n (h @ [[]]) (memo(a \<mapsto> length h)) (length h) (dict_at h a) =
        (h', memo', r)" by simp
    from 6(1) [OF None ci] have "unchanged_but (length h) (h @ [[]]) h'" .
    then have "unchanged_but (length h) h h'"
      using unchanged_but_trans [OF unchanged_imp_but [OF unchanged_append]] by blast
    then show ?thesis by (simp add: unchanged_but_fresh)
  next
    case (Some b)
    with 6 show ?thesis by (simp add: unchanged_refl)
  qed
next
  case (7 n h memo y)
  then show ?case by (simp add: unchanged_but_refl)
next
  case (8 n h memo y k x rest)
  obtain h1 m1 r1 where dc: "deepcopy n h memo x = (h1, m1, r1)"
    by (cases "deepcopy n h memo x") auto
  from 8(1) [OF dc] have u1: "unchanged_but y h h1" by (rule unchanged_imp_but)
  show ?case
  proof (cases r1)
    case (Inl e)
    with 8(3) dc u1 show ?thesis by simp
  next
    case (Inr x')
    with 8(3) dc have "copy_items n (setitem h1 y k x') m1 y rest = (h', memo', r)" by simp
    from 8(2) [OF dc [symmetric] refl Inr this] have "unchanged_but y (setitem h1 y k x') h'" .
    with unchanged_but_trans [OF u1 unchanged_but_setitem]
    show ?thesis by (rule unchanged_but_trans)
  qed
qed (simp_all add: unchanged_refl)

lemma copy_items_result:
  "copy_items n h memo y its = (h', memo', Inr v) \<Longrightarrow> v = VRef y"
proof (induction its arbitrary: h memo)
  case Nil
  then show ?case by simp
next
  case (Cons kx rest)
  obtain k x where kx: "kx = (k, x)" by (cases kx)
  obtain h1 m1 r1 where dc: "deepcopy n h memo x = (h1, m1, r1)"
    by (cases "deepcopy n h memo x") auto
  show ?case
  proof (cases r1)
    case (Inl e)
    with Cons.prems kx dc show ?thesis by simp
  next
    case (Inr x')
    with Cons.prems kx dc have "copy_items n (setitem h1 y k x') m1 y rest = (h', memo', Inr v)"
      by simp
    then show ?thesis by (rule Cons.IH)
  qed
qed

lemma deepcopy_fresh:
  "deepcopy n h Map.empty (VRef a) = (h', memo', Inr v) \<Longrightarrow> v = VRef (length h)"
proof (cases n)
  case 0
  assume "deepcopy n h Map.empty (VRef a) = (h', memo', Inr v)"
  with 0 show ?thesis by simp
next
  case (Suc m)
  assume "deepcopy n h Map.empty (VRef a) = (h', memo', Inr v)"
  with Suc have "copy_items m (h @ [[]]) [a \<mapsto> length h] (length h) (dict_at h a) = (h', memo', Inr v)"
    by simp
  then show ?thesis by (rule copy_items_result)
qed

lemma or_empty_frame: "or_empty h md = (h1, a) \<Longrightarrow> unchanged h h1"
  by (auto simp add: or_empty_def alloc_def unchanged_refl unchanged_append
      split: option.splits if_splits)

lemma merge_keys_no_dict:
  "\<forall>d. dict' \<noteq> VRef d \<Longrightarrow> merge_keys n h dict' md ks = (h', r) \<Longrightarrow> h' = h"
  by (cases ks; cases dict') auto

lemma merge_args_no_dict:
  "\<forall>d. dict' \<noteq> VRef d \<Longrightarrow> merge_args n h dict' args = (h', r) \<Longrightarrow> unchanged h h'"
proof (induction args arbitrary: h)
  case Nil
  then show ?case by (simp add: unchanged_refl)
next
  case (Cons md rest)
  obtain h1 a where oe: "or_empty h md = (h1, a)" by (cases "or_empty h md")
  obtain h2 r2 where mk: "merge_keys n h1 dict' a (map fst (dict_at h1 a)) = (h2, r2)"
    by (cases "merge_keys n h1 dict' a (map fst (dict_at h1 a))")
  from merge_keys_no_dict [OF Cons.prems(1) mk] have h2: "h2 = h1" .
  have u1: "unchanged h h1" using oe by (rule or_empty_frame)
  show ?case
  proof (cases r2)
    case (Inl e)
    with Cons.prems(2) oe mk h2 u1 show ?thesis by simp
  next
    case (Inr u)
    with Cons.prems(2) oe mk h2 have "merge_args n h1 dict' rest = (h', r)" by simp
    from Cons.IH [OF Cons.prems(1) this] u1 show ?thesis by (rule unchanged_trans [rotated])
  qed
qed

lemma merge_frame:
  "merge_dicts n h dicts = (h', r) \<Longrightarrow> unchanged h h'"
  "merge_args n h dict' args = (h', r1) \<Longrightarrow> \<forall>d. dict' = VRef d \<longrightarrow> unchanged_but d h h'"
  "merge_keys n h dict' md ks = (h', r2) \<Longrightarrow> \<forall>d. dict' = VRef d \<longrightarrow> unchanged_but d h h'"
proof (induction n h dicts and n h dict' args and n h dict' md ks arbitrary: h' r and h' r1 and h' r2
    rule: merge_dicts_merge_args_merge_keys.induct)
  case (1 h dicts)
  then show ?case by (simp add: unchanged_refl)
next
  case (2 n h dicts)
  show ?case
  proof (cases "1 < length dicts")
    case False
    with 2(2) show ?thesis by (simp add: unchanged_refl)
  next
    case True
    obtain h1 m1 c where dc: "deepcopy n h Map.empty (arg_val (hd dicts)) = (h1, m1, c)"
      by (cases "deepcopy n h Map.empty (arg_val (hd dicts))") auto
    have u1: "unchanged h h1" using dc by (rule deepcopy_frame(1))
    show ?thesis
    proof (cases c)
      case (Inl e)
      with 2(2) True dc u1 show ?thesis by simp
    next
      case (Inr v)
      with 2(2) True dc have ma: "merge_args n h1 v (tl dicts) = (h', r)" by simp
      show ?thesis
      proof (cases "\<exists>d. v = VRef d")
        case False
        then have "\<forall>d. v \<noteq> VRef d" by simp
        from merge_args_no_dict [OF this ma] u1 show ?thesis by (rule unchanged_trans [rotated])
      next
        case True
        then obtain d where d: "v = VRef d" by blast
        have notn: "\<not> \<not> 1 < length dicts" using \<open>1 < length dicts\<close> by simp
        from 2(1) [OF notn dc [symmetric] refl Inr ma] d have ub: "unchanged_but d h1 h'" by simp
        from dc Inr d obtain a where "hd dicts = Some a"
          by (cases "hd dicts") auto
        with dc Inr d have "deepcopy n h Map.empty (VRef a) = (h1, m1, Inr (VRef d))" by simp
        from deepcopy_fresh [OF this] have "d = length h" by simp
        with u1 ub show ?thesis by (simp add: unchanged_but_shrink)
      qed
    qed
  qed
next
  case (3 n h dict')
  then show ?case by (simp add: unchanged_but_refl)
next
  case (4 n h dict' merge_dict rest)
  obtain h1 a where oe: "or_empty h merge_dict = (h1, a)" by (cases "or_empty h merge_dict")
  obtain h2 r2 where mk: "merge_keys n h1 dict' a (map fst (dict_at h1 a)) = (h2, r2)"
    by (cases "merge_keys n h1 dict' a (map fst (dict_at h1 a))")
  have u1: "unchanged h h1" using oe by (rule or_empty_frame)
  from 4(1) [OF oe [symmetric] mk] have u2: "\<forall>d. dict' = VRef d \<longrightarrow> unchanged_but d h1 h2" .
  show ?case
  proof (intro allI impI)
    fix d assume d: "dict' = VRef d"
    with u2 have ub2: "unchanged_but d h1 h2" by simp
    from u1 have ub1: "unchanged_but d h h1" by (rule unchanged_imp_but)
    show "unchanged_but d h h'"
    proof (cases r2)
      case (Inl e)
      with 4(3) oe mk have "h' = h2" by simp
      with ub1 ub2 show ?thesis by (simp add: unchanged_but_trans)
    next
      case (Inr u)
      with 4(3) oe mk have "merge_args n h2 dict' rest = (h', r1)" by simp
      from 4(2) [OF oe [symmetric] mk [symmetric] Inr this] d have "unchanged_but d h2 h'" by simp
      with ub1 ub2 show ?thesis by (blast intro: unchanged_but_trans)
    qed
  qed
next
  case (5 n h dict' md)
  then show ?case by (simp add: unchanged_but_refl)
next
  case (6 n h md k ks)
  then show ?case by simp
next
  case (7 n h d md k ks)
  show ?case
  proof (intro allI impI)
    fix d' assume "VRef d = VRef d'"
    then have dd: "d' = d" by simp
    show "unchanged_but d' h h'"
    proof (cases "nested_dicts (map_of (dict_at h d) k) (map_of (dict_at h md) k)")
      case None
      show ?thesis
      proof (cases "map_of (dict_at h md) k")
        case None
        with 7(4) \<open>nested_dicts (map_of (dict_at h d) k) (map_of (dict_at h md) k) = None\<close>
        show ?thesis by (simp add: unchanged_but_refl)
      next
        case (Some v)
        with 7(4) \<open>nested_dicts (map_of (dict_at h d) k) (map_of (dict_at h md) k) = None\<close>
        have "merge_keys n (setitem h d k v) (VRef d) md ks = (h', r2)" by simp
        from 7(1) [OF \<open>nested_dicts (map_of (dict_at h d) k) (map_of (dict_at h md) k) = None\<close> Some this]
        have "unchanged_but d (setitem h d k v) h'" by simp
        with unchanged_but_setitem dd show ?thesis by (blast intro: unchanged_but_trans)
      qed
    next
      case (Some ab)
      obtain a b where ab: "ab = (a, b)" by (cases ab)
      obtain h1 r1 where md: "merge_dicts n h [Some a, Some b] = (h1, r1)"
        by (cases "merge_dicts n h [Some a, Some b]")
      from 7(2) [OF Some ab [symmetric] md] have "unchanged h h1" .
      then have u1: "unchanged_but d h h1" by (rule unchanged_imp_but)
      show ?thesis
      proof (cases r1)
        case (Inl e)
        with 7(4) Some ab md have "h' = h1" by simp
        with u1 dd show ?thesis by simp
      next
        case (Inr v)
        with 7(4) Some ab md have "merge_keys n (setitem h1 d k v) (VRef d) md ks = (h', r2)" by simp
        from 7(3) [OF Some ab [symmetric] md [symmetric] Inr this]
        have "unchanged_but d (setitem h1 d k v) h'" by simp
        with u1 unchanged_but_setitem dd show ?thesis by (blast intro: unchanged_but_trans)
      qed
    qed
  qed
qed simp_all

lemma flatten_frame:
  "flatten_dict n h dictionary parent_key separator = (h', r) \<Longrightarrow> unchanged h h'"
  "flatten_items n h its parent_key separator items = (h', r1) \<Longrightarrow> unchanged h h'"
proof (induction n h dictionary parent_key separator and n h its parent_key separator items
    arbitrary: h' r and h' r1 rule: flatten_dict_flatten_items.induct)
  case (1 h dictionary parent_key separator)
  then show ?case by (simp add: unchanged_refl)
next
  case (2 n h dictionary parent_key separator)
  obtain h1 r0 where fi: "flatten_items n h (dict_at h dictionary) parent_key separator [] = (h1, r0)"
    by (cases "flatten_items n h (dict_at h dictionary) parent_key separator []")
  from 2(1) [OF fi] have u1: "unchanged h h1" .
  show ?case
  proof (cases r0)
    case (Inl e)
    with 2(2) fi u1 show ?thesis by simp
  next
    case (Inr its)
    with 2(2) fi have "h' = h1 @ [dict_of_items its]" by (simp add: alloc_def)
    with u1 show ?thesis by (simp add: unchanged_trans [OF _ unchanged_append])
  qed
next
  case (3 n h parent_key separator items)
  then show ?case by (simp add: unchanged_refl)
next
  case (4 n h key "value" rest parent_key separator items)
  show ?case
  proof (cases "new_key parent_key separator key")
    case (Inl e)
    with 4(7) show ?thesis by (simp add: unchanged_refl)
  next
    case (Inr nk)
    show ?thesis
    proof (cases "value")
      case VNone
      with 4(7) Inr have "flatten_items n h rest parent_key separator (items @ [(nk, value)]) = (h', r1)"
        by simp
      from 4(1) [OF Inr VNone this] show ?thesis .
    next
      case (VInt i)
      with 4(7) Inr have "flatten_items n h rest parent_key separator (items @ [(nk, value)]) = (h', r1)"
        by simp
      from 4(2) [OF Inr VInt this] show ?thesis .
    next
      case (VStr s)
      with 4(7) Inr have "flatten_items n h rest parent_key separator (items @ [(nk, value)]) = (h', r1)"
        by simp
      from 4(3) [OF Inr VStr this] show ?thesis .
    next
      case (VArr xs)
      with 4(7) Inr have "flatten_items n h rest parent_key separator (items @ [(nk, value)]) = (h', r1)"
        by simp
      from 4(4) [OF Inr VArr this] show ?thesis .
    next
      case (VRef a)
      obtain h1 r0 where fd: "flatten_dict n h a nk separator = (h1, r0)"
        by (cases "flatten_dict n h a nk separator")
      from 4(5) [OF Inr VRef fd] have u1: "unchanged h h1" .
      show ?thesis
      proof (cases r0)
        case (Inl e)
        with 4(7) \<open>new_key parent_key separator key = Inr nk\<close> VRef fd u1 show ?thesis by simp
      next
        case (Inr c)
        with 4(7) \<open>new_key parent_key separator key = Inr nk\<close> VRef fd
        have "flatten_items n h1 rest parent_key separator (items @ dict_at h1 c) = (h', r1)" by simp
        from 4(6) [OF \<open>new_key parent_key separator key = Inr nk\<close> VRef fd [symmetric] Inr this] u1
        show ?thesis by (rule unchanged_trans [rotated])
      qed
    qed
  qed
qed

lemma append_keys_frame:
  "append_keys h dict1 dict2 ks = (h', r) \<Longrightarrow> unchanged_but dict1 h h' \<and> length h' = length h"
proof (induction ks arbitrary: h)
  case Nil
  then show ?case by (simp add: unchanged_but_refl)
next
  case (Cons key keys)
  show ?case
  proof (cases "getitem h dict1 key")
    case (Inl e)
    with Cons.prems show ?thesis by (simp add: unchanged_but_refl)
  next
    case x: (Inr x)
    show ?thesis
    proof (cases "getitem h dict2 key")
      case (Inl e)
      with Cons.prems x show ?thesis by (simp add: unchanged_but_refl)
    next
      case y: (Inr y)
      show ?thesis
      proof (cases "concatenate x y")
        case (Inl e)
        with Cons.prems x y show ?thesis by (simp add: unchanged_but_refl)
      next
        case (Inr z)
        with Cons.prems x y have "append_keys (setitem h dict1 key z) dict1 dict2 keys = (h', r)"
          by simp
        from Cons.IH [OF this]
        have "unchanged_but dict1 (setitem h dict1 key z) h'" "length h' = length h" by simp_all
        with unchanged_but_setitem show ?thesis by (blast intro: unchanged_but_trans)
      qed
    qed
  qed
qed

lemma append_dict_frame:
  "append_dict h dict1 dict2 = (h', r) \<Longrightarrow>
   unchanged_but dict1 h h' \<and> length h' = length h \<and> (\<forall>v. r = Inr v \<longrightarrow> v = VRef dict1)"
proof -
  assume a: "append_dict h dict1 dict2 = (h', r)"
  obtain h1 r1 where ak: "append_keys h dict1 dict2 (map fst (dict_at h dict1)) = (h1, r1)"
    by (cases "append_keys h dict1 dict2 (map fst (dict_at h dict1))")
  with a have "h' = h1" "\<forall>v. r = Inr v \<longrightarrow> v = VRef dict1"
    by (cases r1; auto simp add: append_dict_def)+
  with append_keys_frame [OF ak] show ?thesis by simp
qed

lemma get_key_str_frame: "get_key_str h dictionary key = (h', r) \<Longrightarrow> unchanged h h'"
  by (auto simp add: get_key_str_def unchanged_refl)

lemma get_key_list_frame: "get_key_list h dictionary key = (h', r) \<Longrightarrow> unchanged h h'"
  by (auto simp add: get_key_list_def alloc_def unchanged_refl unchanged_append split: sum.splits)

lemma get_key_dict_frame: "get_key_dict h dictionary key = (h', r) \<Longrightarrow> unchanged h h'"
  by (auto simp add: get_key_dict_def alloc_def unchanged_refl unchanged_append split: sum.splits)

lemma get_key_none_frame: "get_key_none h dictionary key = (h', r) \<Longrightarrow> unchanged h h'"
  by (auto simp add: get_key_none_def alloc_def unchanged_append)

lemma get_key_all_frame: "get_key_all h dictionary key = (h', r) \<Longrightarrow> unchanged h h'"
  by (auto simp add: get_key_all_def unchanged_refl)

lemma split_prefixes_frame:
  "split_prefixes h dct subdicts prefixes = (h', r) \<Longrightarrow> unchanged_but subdicts h h'"
proof (induction prefixes arbitrary: h)
  case Nil
  then show ?case by (simp add: unchanged_but_refl)
next
  case (Cons prefix prefixes)
  show ?case
  proof (cases "prefix_items (dict_at h dct) prefix")
    case (Inl e)
    with Cons.prems show ?thesis by (simp add: unchanged_but_refl)
  next
    case (Inr its)
    let ?h1 = "h @ [dict_of_items its]"
    from Cons.prems Inr
    have "split_prefixes (setitem ?h1 subdicts (KStr prefix) (VRef (length h))) dct subdicts prefixes =
        (h', r)"
      by (simp add: alloc_def)
    from Cons.IH [OF this]
    have "unchanged_but subdicts (setitem ?h1 subdicts (KStr prefix) (VRef (length h))) h'" .
    moreover have "unchanged_but subdicts h ?h1"
      by (rule unchanged_imp_but [OF unchanged_append])
    ultimately show ?thesis
      using unchanged_but_setitem by (blast intro: unchanged_but_trans)
  qed
qed

lemma unchanged_but_append: "unchanged_but (length h) h (h @ xs)"
  by (rule unchanged_imp_but [OF unchanged_append])

lemma unchanged_but_append_setitem:
  "unchanged_but (length h) h (setitem (h @ xs) (length h) k v)"
  by (rule unchanged_but_trans [OF unchanged_but_append unchanged_but_setitem])

lemma split_prefixes_fresh:
  "split_prefixes h3 dct (length h) prefixes = (h4, r4) \<Longrightarrow>
   unchanged_but (length h) h h3 \<Longrightarrow> unchanged h h4"
  by (blast intro: unchanged_but_fresh unchanged_but_trans dest: split_prefixes_frame)

lemma split_dict_to_subdicts_frame:
  assumes "split_dict_to_subdicts h dct prefixes extra_key = (h', r)"
  shows "unchanged h h'"
proof (cases "extra_items (dict_at (h @ [[]]) dct) prefixes")
  case (Inl e)
  with assms show ?thesis by (auto simp add: split_dict_to_subdicts_def alloc_def unchanged_append)
next
  case (Inr its)
  define h2 where "h2 = h @ [[], dict_of_items its]"
  define h3 where "h3 = (if 0 < length (dict_at h2 (Suc (length h)))
             then setitem h2 (length h) extra_key (VRef (Suc (length h))) else h2)"
  obtain h4 r4 where sp: "split_prefixes h3 dct (length h) prefixes = (h4, r4)"
    by (cases "split_prefixes h3 dct (length h) prefixes")
  from assms Inr have "(case split_prefixes h3 dct (length h) prefixes of
        (h4, Inl e) \<Rightarrow> (h4, Inl e)
      | (h4, Inr u) \<Rightarrow> (h4, Inr (VRef (length h)))) = (h', r)"
    by (simp add: split_dict_to_subdicts_def alloc_def Let_def h3_def h2_def split: if_splits)
  with sp have h': "h' = h4" by (cases r4) simp_all
  have "unchanged_but (length h) h h3"
    unfolding h3_def h2_def
    by (simp add: unchanged_but_append unchanged_but_append_setitem split: if_splits)
  from split_prefixes_fresh [OF sp this] h' show ?thesis by simp
qed

subsection \<open>append\_dict writes into its first argument\<close>

lemma dict_at_setitem:
  "dict_at (setitem h d k v) a =
     (if a = d \<and> d < length h then AList.update k v (dict_at h d) else dict_at h a)"
  by (simp add: dict_at_def setitem_def)

lemma concatenate_Inr:
  "concatenate x y = Inr z \<Longrightarrow> \<exists>xs ys. x = VArr xs \<and> y = VArr ys \<and> z = VArr (xs @ ys)"
  by (cases x; cases y) auto

lemma getitem_Inr: "getitem h d k = Inr v \<longleftrightarrow> map_of (dict_at h d) k = Some v"
  by (simp add: getitem_def split: option.splits)

lemma append_keys_contents:
  assumes "dict1 < length h" and "distinct ks"
    and "append_keys h dict1 dict2 ks = (h', Inr u)"
  shows "map fst (dict_at h' dict1) = map fst (dict_at h dict1) \<and>
         (\<forall>k. k \<notin> set ks \<longrightarrow> getitem h' dict1 k = getitem h dict1 k) \<and>
         (\<forall>k\<in>set ks. \<exists>xs ys. getitem h dict1 k = Inr (VArr xs) \<and>
                               getitem h dict2 k = Inr (VArr ys) \<and>
                               getitem h' dict1 k = Inr (VArr (xs @ ys)))"
  using assms
proof (induction ks arbitrary: h)
  case Nil
  then show ?case by simp
next
  case (Cons key keys)
  from Cons.prems(3) obtain x where x: "getitem h dict1 key = Inr x"
    by (cases "getitem h dict1 key") auto
  with Cons.prems(3) obtain y where y: "getitem h dict2 key = Inr y"
    by (cases "getitem h dict2 key") auto
  with Cons.prems(3) x obtain z where z: "concatenate x y = Inr z"
    by (cases "concatenate x y") auto
  from concatenate_Inr [OF z] obtain xs ys where
    xy: "x = VArr xs" "y = VArr ys" "z = VArr (xs @ ys)" by blast
  let ?h1 = "setitem h dict1 key z"
  from Cons.prems(3) x y z have rec: "append_keys ?h1 dict1 dict2 keys = (h', Inr u)" by simp
  from Cons.prems(1) have len1: "dict1 < length ?h1" by simp
  from Cons.prems(2) have dk: "distinct keys" and notin: "key \<notin> set keys" by simp_all
  note IH = Cons.IH [OF len1 dk rec]
  have d1: "dict_at ?h1 dict1 = AList.update key z (dict_at h dict1)"
    using Cons.prems(1) by (simp add: dict_at_setitem)
  from x have "key \<in> set (map fst (dict_at h dict1))"
    by (simp add: getitem_Inr) (metis domI dom_map_of_conv_image_fst)
  then have keys: "map fst (dict_at ?h1 dict1) = map fst (dict_at h dict1)"
    by (simp add: d1 update_keys)
  have get1: "\<And>k. getitem ?h1 dict1 k = (if k = key then Inr z else getitem h dict1 k)"
    by (simp add: getitem_def d1 update_conv')
  have get2: "\<And>k. k \<noteq> key \<Longrightarrow> getitem ?h1 dict2 k = getitem h dict2 k"
    by (cases "dict2 = dict1") (simp_all add: get1, simp add: getitem_def dict_at_setitem)
  have a: "map fst (dict_at h' dict1) = map fst (dict_at h dict1)"
    using IH keys by simp
  have b: "\<forall>k. k \<notin> set (key # keys) \<longrightarrow> getitem h' dict1 k = getitem h dict1 k"
    using IH get1 by simp
  have c: "\<forall>k\<in>set (key # keys). \<exists>xs ys. getitem h dict1 k = Inr (VArr xs) \<and>
                               getitem h dict2 k = Inr (VArr ys) \<and>
                               getitem h' dict1 k = Inr (VArr (xs @ ys))"
  proof
    fix k assume "k \<in> set (key # keys)"
    then consider "k = key" | "k \<in> set keys" "k \<noteq> key" using notin by auto
    then show "\<exists>xs ys. getitem h dict1 k = Inr (VArr xs) \<and>
                               getitem h dict2 k = Inr (VArr ys) \<and>
                               getitem h' dict1 k = Inr (VArr (xs @ ys))"
    proof cases
      case 1
      from IH notin have "getitem h' dict1 key = getitem ?h1 dict1 key" by blast
      with get1 have "getitem h' dict1 key = Inr z" by simp
      with 1 x y xy show ?thesis by simp
    next
      case 2
      from IH 2(1) obtain xs' ys' where "getitem ?h1 dict1 k = Inr (VArr xs')"
        "getitem ?h1 dict2 k = Inr (VArr ys')" "getitem h' dict1 k = Inr (VArr (xs' @ ys'))"
        by blast
      with get1 get2 2(2) show ?thesis by simp
    qed
  qed
  from a b c show ?case by blast
qed

lemma append_dict_contents:
  assumes "dict1 < length h" and "distinct (map fst (dict_at h dict1))"
    and "snd (append_dict h dict1 dict2) = Inr v"
  shows "map fst (dict_at (fst (append_dict h dict1 dict2)) dict1) = map fst (dict_at h dict1) \<and>
         (\<forall>k\<in>fst ` set (dict_at h dict1).
            \<exists>xs ys. getitem h dict1 k = Inr (VArr xs) \<and>
                    getitem h dict2 k = Inr (VArr ys) \<and>
                    getitem (fst (append_dict h dict1 dict2)) dict1 k = Inr (VArr (xs @ ys)))"
proof -
  obtain h1 r1 where ak: "append_keys h dict1 dict2 (map fst (dict_at h dict1)) = (h1, r1)"
    by (cases "append_keys h dict1 dict2 (map fst (dict_at h dict1))")
  with assms(3) obtain u where r1: "r1 = Inr u"
    by (cases r1) (simp_all add: append_dict_def)
  with ak have h1: "fst (append_dict h dict1 dict2) = h1" by (simp add: append_dict_def)
  from append_keys_contents [OF assms(1,2) ak [unfolded r1]] h1 show ?thesis by simp
qed

text \<open>
  Claim C7, as amended. Every dictionary utility but \<^verbatim>\<open>append_dict\<close> leaves every
  dictionary that existed before the call as it was, whatever the arguments and on
  every exit; this holds for \<^verbatim>\<open>get_key_str\<close>, \<^verbatim>\<open>get_key_list\<close>, \<^verbatim>\<open>get_key_dict\<close>,
  \<^verbatim>\<open>get_key_none\<close>, \<^verbatim>\<open>get_key_all\<close>, \<^verbatim>\<open>merge_dicts\<close>, \<^verbatim>\<open>flatten_dict\<close> and
  \<^verbatim>\<open>split_dict_to_subdicts\<close> (\<^verbatim>\<open>get_dictkey_auto_fn\<close> takes no heap at all). \<^verbatim>\<open>append_dict\<close>
  writes into its first argument: it changes no dictionary other than \<^verbatim>\<open>dict1\<close>, the
  value it returns is \<^verbatim>\<open>dict1\<close> itself, and after a call that returns \<^verbatim>\<open>dict1\<close> has its
  keys in their order and holds under each the concatenation of what \<^verbatim>\<open>dict1\<close> and
  \<^verbatim>\<open>dict2\<close> held under it. (As stated, the claim has \<^verbatim>\<open>append_dict\<close> leave its arguments
  unchanged; the counterexample below is a call after which \<^verbatim>\<open>dict1\<close> holds longer
  arrays.)
\<close>

theorem C7_only_append_dict_mutates:
  "unchanged h (fst (get_key_str h dictionary k)) \<and>
   unchanged h (fst (get_key_list h dictionary ks)) \<and>
   unchanged h (fst (get_key_dict h dictionary kd)) \<and>
   unchanged h (fst (get_key_none h dictionary ka)) \<and>
   unchanged h (fst (get_key_all h dictionary ka)) \<and>
   unchanged h (fst (merge_dicts n h dicts)) \<and>
   unchanged h (fst (flatten_dict n h dictionary parent_key separator)) \<and>
   unchanged h (fst (split_dict_to_subdicts h dictionary prefixes extra_key)) \<and>
   unchanged_but dict1 h (fst (append_dict h dict1 dict2)) \<and>
   (\<forall>v. snd (append_dict h dict1 dict2) = Inr v \<longrightarrow> v = VRef dict1) \<and>
   (dict1 < length h \<and> distinct (map fst (dict_at h dict1)) \<and>
    (\<exists>v. snd (append_dict h dict1 dict2) = Inr v) \<longrightarrow>
      map fst (dict_at (fst (append_dict h dict1 dict2)) dict1) = map fst (dict_at h dict1) \<and>
      (\<forall>k\<in>fst ` set (dict_at h dict1).
         \<exists>xs ys. getitem h dict1 k = Inr (VArr xs) \<and>
                 getitem h dict2 k = Inr (VArr ys) \<and>
                 getitem (fst (append_dict h dict1 dict2)) dict1 k = Inr (VArr (xs @ ys))))"
proof -
  have 1: "unchanged h (fst (get_key_str h dictionary k))"
    by (rule get_key_str_frame [OF prod.collapse [symmetric]])
  have 2: "unchanged h (fst (get_key_list h dictionary ks))"
    by (rule get_key_list_frame [OF prod.collapse [symmetric]])
  have 3: "unchanged h (fst (get_key_dict h dictionary kd))"
    by (rule get_key_dict_frame [OF prod.collapse [symmetric]])
  have 4: "unchanged h (fst (get_key_none h dictionary ka))"
    by (rule get_key_none_frame [OF prod.collapse [symmetric]])
  have 5: "unchanged h (fst (get_key_all h dictionary ka))"
    by (rule get_key_all_frame [OF prod.collapse [symmetric]])
  have 6: "unchanged h (fst (merge_dicts n h dicts))"
    by (rule merge_frame(1) [OF prod.collapse [symmetric]])
  have 7: "unchanged h (fst (flatten_dict n h dictionary parent_key separator))"
    by (rule flatten_frame(1) [OF prod.collapse [symmetric]])
  have 8: "unchanged h (fst (split_dict_to_subdicts h dictionary prefixes extra_key))"
    by (rule split_dict_to_subdicts_frame [OF prod.collapse [symmetric]])
  from append_dict_frame [OF prod.collapse [symmetric]]
  have 9: "unchanged_but dict1 h (fst (append_dict h dict1 dict2))"
    and 10: "\<forall>v. snd (append_dict h dict1 dict2) = Inr v \<longrightarrow> v = VRef dict1"
    by blast+
  have 11: "dict1 < length h \<and> distinct (map fst (dict_at h dict1)) \<and>
    (\<exists>v. snd (append_dict h dict1 dict2) = Inr v) \<longrightarrow>
      map fst (dict_at (fst (append_dict h dict1 dict2)) dict1) = map fst (dict_at h dict1) \<and>
      (\<forall>k\<in>fst ` set (dict_at h dict1).
         \<exists>xs ys. getitem h dict1 k = Inr (VArr xs) \<and>
                 getitem h dict2 k = Inr (VArr ys) \<and>
                 getitem (fst (append_dict h dict1 dict2)) dict1 k = Inr (VArr (xs @ ys)))"
    using append_dict_contents by blast
  from 1 2 3 4 5 6 7 8 9 10 11 show ?thesis by blast
qed

theorem C7_counterexample:
  "append_dict arrays 0 1 =
     ([[(KStr ''loss'', VArr [1, 2, 3]), (KStr ''acc'', VArr [7, 8, 9])],
       [(KStr ''acc'', VArr [9]), (KStr ''loss'', VArr [2, 3])]],
      Inr (VRef 0)) \<and>
   \<not> unchanged arrays (fst (append_dict arrays 0 1))"
  by (simp add: arrays_def append_dict_def dict_at_def getitem_def setitem_def unchanged_def)

theorem C7_witness:
  "unchanged arrays (fst (merge_dicts 3 arrays [Some 0, Some 1])) \<and>
   unchanged arrays (fst (flatten_dict 3 arrays 0 (KStr '''') ''/'')) \<and>
   getitem (fst (append_dict arrays 0 1)) 0 (KStr ''loss'') = Inr (VArr [1, 2, 3])"
proof -
  have pre: "0 < length arrays \<and> distinct (map fst (dict_at arrays 0)) \<and>
    (\<exists>v. snd (append_dict arrays 0 1) = Inr v)"
    by (simp add: arrays_def append_dict_def dict_at_def getitem_def setitem_def)
  have k: "KStr ''loss'' \<in> fst ` set (dict_at arrays 0)"
    by (simp add: arrays_def dict_at_def)
  have g: "getitem arrays 0 (KStr ''loss'') = Inr (VArr [1])"
    "getitem arrays 1 (KStr ''loss'') = Inr (VArr [2, 3])"
    by (simp_all add: arrays_def dict_at_def getitem_def)
  from C7_only_append_dict_mutates [of arrays 0 _ _ _ _ 3 "[Some 0, Some 1]" "KStr ''''" "''/''" _ _ 0 1]
    pre k g
  show ?thesis by fastforce
qed

subsection \<open>copy.deepcopy makes an equal copy out of new dictionaries\<close>

lemma dict_at_unchanged: "unchanged h h' \<Longrightarrow> a < length h \<Longrightarrow> dict_at h' a = dict_at h a"
  by (auto simp add: unchanged_iff dict_at_def)

lemma dict_at_unchanged_but:
  "unchanged_but y h h' \<Longrightarrow> a < length h \<Longrightarrow> a \<noteq> y \<Longrightarrow> dict_at h' a = dict_at h a"
  by (auto simp add: unchanged_but_def dict_at_def)

lemma unchanged_but_length: "unchanged_but y h h' \<Longrightarrow> length h \<le> length h'"
  by (simp add: unchanged_but_def)

lemma renamed_mono:
  "m \<subseteq>\<^sub>m m' \<Longrightarrow> \<forall>c. x = VRef c \<longrightarrow> c \<in> dom m \<Longrightarrow> renamed m' x = renamed m x"
  by (cases x) (auto simp add: map_le_def)

lemma copied_mono:
  assumes "copied h0 h1 m1 a" and "m1 \<subseteq>\<^sub>m m'" and "a \<in> dom m1"
    and "dict_at h' (the (m1 a)) = dict_at h1 (the (m1 a))"
  shows "copied h0 h' m' a"
proof -
  from assms(2,3) have ma: "m' a = m1 a" by (auto simp add: map_le_def)
  from assms(1) have refs: "\<forall>k c. (k, VRef c) \<in> set (dict_at h0 a) \<longrightarrow> c \<in> dom m1"
    and items: "dict_at h1 (the (m1 a)) = map (\<lambda>(k, x). (k, renamed m1 x)) (dict_at h0 a)"
    by (simp_all add: copied_def)
  have "map (\<lambda>(k, x). (k, renamed m' x)) (dict_at h0 a) =
        map (\<lambda>(k, x). (k, renamed m1 x)) (dict_at h0 a)"
  proof (rule map_cong [OF refl])
    fix kx assume kx: "kx \<in> set (dict_at h0 a)"
    obtain k x where p: "kx = (k, x)" by (cases kx)
    with kx refs have "\<forall>c. x = VRef c \<longrightarrow> c \<in> dom m1" by blast
    from renamed_mono [OF assms(2) this] p
    show "(case kx of (k, x) \<Rightarrow> (k, renamed m' x)) = (case kx of (k, x) \<Rightarrow> (k, renamed m1 x))"
      by simp
  qed
  with items assms(4) ma have "dict_at h' (the (m' a)) = map (\<lambda>(k, x). (k, renamed m' x)) (dict_at h0 a)"
    by simp
  moreover from refs assms(2) have "\<forall>k c. (k, VRef c) \<in> set (dict_at h0 a) \<longrightarrow> c \<in> dom m'"
    by (meson map_le_implies_dom_le subsetD)
  ultimately show ?thesis by (simp add: copied_def)
qed

lemma new_copies_refl: "dom m \<subseteq> {..<length h0} \<Longrightarrow> new_copies h0 h m h m"
  by (simp add: new_copies_def)

lemma memo_ok_alloc:
  assumes "memo_ok h0 h m" and "a < length h0"
  shows "memo_ok h0 (h @ [[]]) (m(a \<mapsto> length h))"
proof -
  from assms(1) have u: "unchanged h0 h" and d: "dom m \<subseteq> {..<length h0}"
    and r: "ran m \<subseteq> {length h0..<length h}" by (simp_all add: memo_ok_def)
  from u have len: "length h0 \<le> length h" by (rule unchanged_length)
  have "unchanged h0 (h @ [[]])" using u unchanged_append by (rule unchanged_trans)
  moreover have "dom (m(a \<mapsto> length h)) \<subseteq> {..<length h0}" using d assms(2) by simp
  moreover have "ran (m(a \<mapsto> length h)) \<subseteq> {length h0..<length (h @ [[]])}"
  proof
    fix b assume "b \<in> ran (m(a \<mapsto> length h))"
    then obtain x where "(m(a \<mapsto> length h)) x = Some b" by (auto simp add: ran_def)
    then have "b = length h \<or> b \<in> ran m" by (auto simp add: ran_def split: if_splits)
    with r len show "b \<in> {length h0..<length (h @ [[]])}" by auto
  qed
  ultimately show ?thesis by (simp add: memo_ok_def)
qed

lemma memo_ok_step:
  assumes "memo_ok h0 h m" and "unchanged h h1" and "new_copies h0 h m h1 m1"
  shows "memo_ok h0 h1 m1"
proof -
  from assms(1) have u: "unchanged h0 h" and r: "ran m \<subseteq> {length h0..<length h}"
    by (simp_all add: memo_ok_def)
  from u have len0: "length h0 \<le> length h" by (rule unchanged_length)
  from assms(2) have len1: "length h \<le> length h1" by (rule unchanged_length)
  from assms(3) have le: "m \<subseteq>\<^sub>m m1" and d1: "dom m1 \<subseteq> {..<length h0}"
    and new: "\<forall>a\<in>dom m1 - dom m. length h \<le> the (m1 a) \<and> the (m1 a) < length h1"
    by (simp_all add: new_copies_def)
  have "ran m1 \<subseteq> {length h0..<length h1}"
  proof
    fix b assume "b \<in> ran m1"
    then obtain a where a: "m1 a = Some b" by (auto simp add: ran_def)
    show "b \<in> {length h0..<length h1}"
    proof (cases "a \<in> dom m")
      case True
      with le a have "m a = Some b" by (auto simp add: map_le_def)
      then have "b \<in> ran m" by (auto simp add: ran_def)
      with r len1 show ?thesis by auto
    next
      case False
      with a new have "length h \<le> b \<and> b < length h1" by force
      with len0 show ?thesis by simp
    qed
  qed
  with unchanged_trans [OF u assms(2)] d1 show ?thesis by (simp add: memo_ok_def)
qed

lemma memo_ok_setitem:
  assumes "memo_ok h0 h m" and "length h0 \<le> y"
  shows "memo_ok h0 (setitem h y k v) m"
proof -
  from assms(1) have u: "unchanged h0 h" by (simp add: memo_ok_def)
  have "unchanged_but y h (setitem h y k v)" by (rule unchanged_but_setitem)
  from unchanged_but_shrink [OF u this assms(2)] have "unchanged h0 (setitem h y k v)" .
  with assms(1) show ?thesis by (simp add: memo_ok_def)
qed

lemma fuel_mono:
  assumes "m \<subseteq>\<^sub>m m'" and "card ({..<N} - dom m) \<le> n"
  shows "card ({..<N::nat} - dom m') \<le> n"
proof -
  from assms(1) have "dom m \<subseteq> dom m'" by (rule map_le_implies_dom_le)
  then have "{..<N} - dom m' \<subseteq> {..<N} - dom m" by auto
  then have "card ({..<N} - dom m') \<le> card ({..<N} - dom m)"
    by (intro card_mono) simp_all
  with assms(2) show ?thesis by simp
qed

lemma fuel_visit:
  assumes "m a = None" and "a < N" and "card ({..<N} - dom m) \<le> Suc n"
  shows "card ({..<N::nat} - dom (m(a \<mapsto> b))) \<le> n"
proof -
  have eq: "{..<N} - dom (m(a \<mapsto> b)) = ({..<N} - dom m) - {a}" by auto
  from assms(1,2) have "a \<in> {..<N} - dom m" by auto
  then have "card (({..<N} - dom m) - {a}) = card ({..<N} - dom m) - 1"
    by (simp add: card_Diff_singleton)
  moreover from \<open>a \<in> {..<N} - dom m\<close> have "0 < card ({..<N} - dom m)"
    by (metis card_gt_0_iff empty_iff finite_Diff finite_lessThan)
  ultimately show ?thesis using assms(3) eq by simp
qed

lemma wf_heap_distinct: "wf_heap h \<Longrightarrow> a < length h \<Longrightarrow> distinct (map fst (dict_at h a))"
  by (simp add: wf_heap_def wf_dict_def list_all_length dict_at_def)

lemma wf_heap_refs:
  assumes "wf_heap h" and "a < length h" and "(k, x) \<in> set (dict_at h a)"
  shows "val_ok h x"
proof -
  from assms(1,2) have "list_all (\<lambda>(k, v). case v of VRef b \<Rightarrow> b < length h | _ \<Rightarrow> True) (dict_at h a)"
    by (simp add: wf_heap_def wf_dict_def list_all_length dict_at_def)
  with assms(3) have "case x of VRef b \<Rightarrow> b < length h | _ \<Rightarrow> True"
    by (auto simp add: list_all_iff)
  then show ?thesis by (cases x) (simp_all add: val_ok_def)
qed

lemma update_fresh_key:
  "k \<notin> fst ` set al \<Longrightarrow> AList.update k v al = al @ [(k, v)]"
  by (induction al) auto

lemma deepcopy_correct:
  assumes wf: "wf_heap h0"
  shows "memo_ok h0 h m \<Longrightarrow> val_ok h0 v \<Longrightarrow> card ({..<length h0} - dom m) \<le> n \<Longrightarrow>
           \<exists>h' m'. deepcopy n h m v = (h', m', Inr (renamed m' v)) \<and> unchanged h h' \<and>
                   new_copies h0 h m h' m' \<and> (\<forall>a. v = VRef a \<longrightarrow> a \<in> dom m')"
    and "memo_ok h0 h m \<Longrightarrow> y < length h \<Longrightarrow> length h0 \<le> y \<Longrightarrow>
         (\<forall>k x. (k, x) \<in> set its \<longrightarrow> val_ok h0 x) \<Longrightarrow> distinct (map fst its) \<Longrightarrow>
         fst ` set its \<inter> fst ` set (dict_at h y) = {} \<Longrightarrow>
         card ({..<length h0} - dom m) \<le> n \<Longrightarrow>
           \<exists>h' m'. copy_items n h m y its = (h', m', Inr (VRef y)) \<and> unchanged_but y h h' \<and>
                   new_copies h0 h m h' m' \<and>
                   dict_at h' y = dict_at h y @ map (\<lambda>(k, x). (k, renamed m' x)) its \<and>
                   (\<forall>k c. (k, VRef c) \<in> set its \<longrightarrow> c \<in> dom m')"
proof (induction n h m v and n h m y its rule: deepcopy_copy_items.induct)
  case (1 n h memo)
  then have "dom memo \<subseteq> {..<length h0}" by (simp add: memo_ok_def)
  then show ?case by (simp add: unchanged_refl new_copies_refl)
next
  case (2 n h memo i)
  then have "dom memo \<subseteq> {..<length h0}" by (simp add: memo_ok_def)
  then show ?case by (simp add: unchanged_refl new_copies_refl)
next
  case (3 n h memo s)
  then have "dom memo \<subseteq> {..<length h0}" by (simp add: memo_ok_def)
  then show ?case by (simp add: unchanged_refl new_copies_refl)
next
  case (4 n h memo xs)
  then have "dom memo \<subseteq> {..<length h0}" by (simp add: memo_ok_def)
  then show ?case by (simp add: unchanged_refl new_copies_refl)
next
  case (5 h memo a)
  from 5(1) have dm: "dom memo \<subseteq> {..<length h0}" by (simp add: memo_ok_def)
  from 5(2) have a: "a < length h0" by (simp add: val_ok_def)
  from 5(3) have "{..<length h0} - dom memo = {}" by simp
  with a have "a \<in> dom memo" by auto
  then obtain b where b: "memo a = Some b" by auto
  with dm show ?case by (simp add: unchanged_refl new_copies_refl) auto
next
  case (6 n h memo a)
  from 6(2) have mo: "memo_ok h0 h memo" .
  then have dm: "dom memo \<subseteq> {..<length h0}" and u0: "unchanged h0 h"
    by (simp_all add: memo_ok_def)
  from 6(3) have a: "a < length h0" by (simp add: val_ok_def)
  show ?case
  proof (cases "memo a")
    case (Some b)
    with dm show ?thesis by (simp add: unchanged_refl new_copies_refl) auto
  next
    case None
    let ?y = "length h"
    let ?h1 = "h @ [[]]"
    let ?m1 = "memo(a \<mapsto> ?y)"
    have its: "dict_at h a = dict_at h0 a" using u0 a by (rule dict_at_unchanged)
    have p1: "memo_ok h0 ?h1 ?m1" using mo a by (rule memo_ok_alloc)
    have p2: "?y < length ?h1" by simp
    have p3: "length h0 \<le> ?y" using u0 by (rule unchanged_length)
    have p4: "\<forall>k x. (k, x) \<in> set (dict_at h a) \<longrightarrow> val_ok h0 x"
      using wf_heap_refs [OF wf a] its by simp
    have p5: "distinct (map fst (dict_at h a))"
      using wf_heap_distinct [OF wf a] its by simp
    have e: "dict_at ?h1 ?y = []" by (simp add: dict_at_def)
    then have p6: "fst ` set (dict_at h a) \<inter> fst ` set (dict_at ?h1 ?y) = {}" by simp
    have p7: "card ({..<length h0} - dom ?m1) \<le> n"
      using None a 6(4) by (rule fuel_visit)
    from 6(1) [OF None p1 p2 p3 p4 p5 p6 p7] obtain h' m' where
      ci: "copy_items n ?h1 ?m1 ?y (dict_at h a) = (h', m', Inr (VRef ?y))"
      and ub: "unchanged_but ?y ?h1 h'"
      and nc: "new_copies h0 ?h1 ?m1 h' m'"
      and items: "dict_at h' ?y = dict_at ?h1 ?y @ map (\<lambda>(k, x). (k, renamed m' x)) (dict_at h a)"
      and refs: "\<forall>k c. (k, VRef c) \<in> set (dict_at h a) \<longrightarrow> c \<in> dom m'"
      by blast
    from nc have le1: "?m1 \<subseteq>\<^sub>m m'" and dm': "dom m' \<subseteq> {..<length h0}"
      and new: "\<forall>a'\<in>dom m' - dom ?m1. length ?h1 \<le> the (m' a') \<and> the (m' a') < length h' \<and>
                  copied h0 h' m' a'"
      by (simp_all add: new_copies_def)
    from le1 have ma: "m' a = Some ?y" by (auto simp add: map_le_def)
    from None have "memo \<subseteq>\<^sub>m ?m1" by (auto simp add: map_le_def)
    then have le: "memo \<subseteq>\<^sub>m m'" using le1 by (rule map_le_trans)
    from ub have len': "length ?h1 \<le> length h'" by (rule unchanged_but_length)
    have r1: "deepcopy (Suc n) h memo (VRef a) = (h', m', Inr (renamed m' (VRef a)))"
      using None ci ma by simp
    have r2: "unchanged h h'"
      using unchanged_append ub by (rule unchanged_but_shrink) simp
    have ca: "copied h0 h' m' a"
      using items e its refs ma by (simp add: copied_def)
    have r3: "new_copies h0 h memo h' m'"
      unfolding new_copies_def
    proof (intro conjI ballI)
      show "memo \<subseteq>\<^sub>m m'" by (rule le)
      show "dom m' \<subseteq> {..<length h0}" by (rule dm')
    next
      fix a' assume a': "a' \<in> dom m' - dom memo"
      show "length h \<le> the (m' a')"
      proof (cases "a' = a")
        case True with ma show ?thesis by simp
      next
        case False with a' new have "length ?h1 \<le> the (m' a')" by simp
        then show ?thesis by simp
      qed
      show "the (m' a') < length h'"
      proof (cases "a' = a")
        case True with ma len' show ?thesis by simp
      next
        case False with a' new show ?thesis by simp
      qed
      show "copied h0 h' m' a'"
      proof (cases "a' = a")
        case True with ca show ?thesis by simp
      next
        case False with a' new show ?thesis by simp
      qed
    qed
    from ma have r4: "\<forall>a'. VRef a = VRef a' \<longrightarrow> a' \<in> dom m'" by auto
    from r1 r2 r3 r4 show ?thesis by blast
  qed
next
  case (7 n h memo y)
  then have "dom memo \<subseteq> {..<length h0}" by (simp add: memo_ok_def)
  then show ?case by (simp add: unchanged_but_refl new_copies_refl)
next
  case (8 n h memo y k x rest)
  note mo = 8(3) and y = 8(4) and y0 = 8(5) and oks = 8(6) and dist = 8(7) and disj = 8(8)
    and fuel = 8(9)
  from oks have okx: "val_ok h0 x" by simp
  from 8(1) [OF mo okx fuel] obtain h1 m1 where
    dc: "deepcopy n h memo x = (h1, m1, Inr (renamed m1 x))"
    and u1: "unchanged h h1"
    and nc1: "new_copies h0 h memo h1 m1"
    and rx: "\<forall>a. x = VRef a \<longrightarrow> a \<in> dom m1"
    by blast
  let ?x' = "renamed m1 x"
  let ?h2 = "setitem h1 y k ?x'"
  from nc1 have le1: "memo \<subseteq>\<^sub>m m1" by (simp add: new_copies_def)
  from u1 have len1: "length h \<le> length h1" by (rule unchanged_length)
  have mo1: "memo_ok h0 h1 m1" using mo u1 nc1 by (rule memo_ok_step)
  have q1: "memo_ok h0 ?h2 m1" using mo1 y0 by (rule memo_ok_setitem)
  have q2: "y < length ?h2" using y len1 by simp
  have q4: "\<forall>k x. (k, x) \<in> set rest \<longrightarrow> val_ok h0 x" using oks by simp
  have q5: "distinct (map fst rest)" using dist by simp
  have dy1: "dict_at h1 y = dict_at h y" using u1 y by (rule dict_at_unchanged)
  from disj have knew: "k \<notin> fst ` set (dict_at h y)" by auto
  have dy2: "dict_at ?h2 y = dict_at h y @ [(k, ?x')]"
    using y len1 dy1 knew by (simp add: dict_at_def setitem_def update_fresh_key)
  have q6: "fst ` set rest \<inter> fst ` set (dict_at ?h2 y) = {}"
    using dist disj by (auto simp add: dy2)
  have q7: "card ({..<length h0} - dom m1) \<le> n" using le1 fuel by (rule fuel_mono)
  from 8(2) [OF dc [symmetric] refl refl q1 q2 y0 q4 q5 q6 q7] obtain h' m' where
    ci: "copy_items n ?h2 m1 y rest = (h', m', Inr (VRef y))"
    and ub: "unchanged_but y ?h2 h'"
    and nc2: "new_copies h0 ?h2 m1 h' m'"
    and items: "dict_at h' y = dict_at ?h2 y @ map (\<lambda>(k, x). (k, renamed m' x)) rest"
    and refs: "\<forall>k c. (k, VRef c) \<in> set rest \<longrightarrow> c \<in> dom m'"
    by blast
  from nc2 have le2: "m1 \<subseteq>\<^sub>m m'" and dm': "dom m' \<subseteq> {..<length h0}"
    and new2: "\<forall>a\<in>dom m' - dom m1. length ?h2 \<le> the (m' a) \<and> the (m' a) < length h' \<and>
                  copied h0 h' m' a"
    by (simp_all add: new_copies_def)
  from nc1 have new1: "\<forall>a\<in>dom m1 - dom memo. length h \<le> the (m1 a) \<and> the (m1 a) < length h1 \<and>
                  copied h0 h1 m1 a"
    by (simp add: new_copies_def)
  from ub have len2: "length ?h2 \<le> length h'" by (rule unchanged_but_length)
  have r1: "copy_items n h memo y ((k, x) # rest) = (h', m', Inr (VRef y))"
    using dc ci by simp
  have "unchanged_but y h h1" using u1 by (rule unchanged_imp_but)
  then have "unchanged_but y h ?h2"
    using unchanged_but_setitem by (rule unchanged_but_trans)
  then have r2: "unchanged_but y h h'" using ub by (rule unchanged_but_trans)
  have xx: "renamed m' x = ?x'" using le2 rx by (rule renamed_mono)
  have r4: "dict_at h' y = dict_at h y @ map (\<lambda>(k, x). (k, renamed m' x)) ((k, x) # rest)"
    using items dy2 xx by simp
  have r5: "\<forall>k' c. (k', VRef c) \<in> set ((k, x) # rest) \<longrightarrow> c \<in> dom m'"
  proof (intro allI impI)
    fix k' c assume "(k', VRef c) \<in> set ((k, x) # rest)"
    then consider "x = VRef c" | "(k', VRef c) \<in> set rest" by auto
    then show "c \<in> dom m'"
    proof cases
      case 1
      with rx have "c \<in> dom m1" by simp
      with le2 show ?thesis by (meson map_le_implies_dom_le subsetD)
    next
      case 2
      with refs show ?thesis by blast
    qed
  qed
  have r3: "new_copies h0 h memo h' m'"
    unfolding new_copies_def
  proof (intro conjI)
    show "memo \<subseteq>\<^sub>m m'" using le1 le2 by (rule map_le_trans)
    show "dom m' \<subseteq> {..<length h0}" by (rule dm')
    show "\<forall>a\<in>dom m' - dom memo.
            length h \<le> the (m' a) \<and> the (m' a) < length h' \<and> copied h0 h' m' a"
    proof
    fix a assume a: "a \<in> dom m' - dom memo"
    show "length h \<le> the (m' a) \<and> the (m' a) < length h' \<and> copied h0 h' m' a"
    proof (cases "a \<in> dom m1")
      case True
      with a new1 have c: "length h \<le> the (m1 a)" "the (m1 a) < length h1" "copied h0 h1 m1 a"
        by simp_all
      from True le2 have eq: "m' a = m1 a" by (auto simp add: map_le_def)
      from c(1) y have ne: "the (m1 a) \<noteq> y" by simp
      from c(2) have lt2: "the (m1 a) < length ?h2" by simp
      have "dict_at h' (the (m1 a)) = dict_at ?h2 (the (m1 a))"
        using ub lt2 ne by (rule dict_at_unchanged_but)
      also have "\<dots> = dict_at h1 (the (m1 a))"
        using ne by (simp add: dict_at_def setitem_def)
      finally have same: "dict_at h' (the (m1 a)) = dict_at h1 (the (m1 a))" .
      have "copied h0 h' m' a" using c(3) le2 True same by (rule copied_mono)
      moreover from c(2) len2 have "the (m1 a) < length h'" by simp
      ultimately show ?thesis using c(1) eq by simp
    next
      case False
      with a new2 have "length ?h2 \<le> the (m' a)" "the (m' a) < length h'" "copied h0 h' m' a"
        by simp_all
      with len1 show ?thesis by simp
    qed
    qed
  qed
  from r1 r2 r3 r4 r5 show ?case by blast
qed

lemma memo_ok_start: "memo_ok h h Map.empty"
  by (simp add: memo_ok_def unchanged_refl)

lemma deepcopy_top:
  assumes wf: "wf_heap h" and d: "d < length h" and fuel: "length h \<le> n"
  shows "\<exists>h' m'. deepcopy n h Map.empty (VRef d) = (h', m', Inr (VRef (length h))) \<and>
           unchanged h h' \<and> m' d = Some (length h) \<and>
           (\<forall>a\<in>dom m'. length h \<le> the (m' a) \<and> the (m' a) < length h' \<and> copied h h' m' a)"
proof -
  have vo: "val_ok h (VRef d)" using d by (simp add: val_ok_def)
  have c: "card ({..<length h} - dom (Map.empty :: addr \<rightharpoonup> addr)) \<le> n" using fuel by simp
  from deepcopy_correct(1) [OF wf memo_ok_start vo c] obtain h' m' where
    dc: "deepcopy n h Map.empty (VRef d) = (h', m', Inr (renamed m' (VRef d)))"
    and u: "unchanged h h'" and nc: "new_copies h h Map.empty h' m'" and dm: "d \<in> dom m'"
    by blast
  from deepcopy_fresh [OF dc] have "the (m' d) = length h" by simp
  with dm have md: "m' d = Some (length h)" by auto
  from nc have "\<forall>a\<in>dom m'. length h \<le> the (m' a) \<and> the (m' a) < length h' \<and> copied h h' m' a"
    by (simp add: new_copies_def)
  with dc u md show ?thesis by auto
qed

lemma copied_extend:
  assumes "copied h0 h1 m a" and "the (m a) < length h1" and "unchanged h1 h2"
  shows "copied h0 h2 m a"
proof -
  from assms(3,2) have "dict_at h2 (the (m a)) = dict_at h1 (the (m a))"
    by (rule dict_at_unchanged)
  with assms(1) show ?thesis by (simp add: copied_def)
qed

lemma contents_copied:
  assumes all: "\<forall>a\<in>dom m. copied h H m a"
  shows "\<forall>c. v = VRef c \<longrightarrow> c \<in> dom m \<Longrightarrow> contents k H (renamed m v) = contents k h v"
proof (induction k arbitrary: v)
  case 0
  then show ?case by (cases v) simp_all
next
  case (Suc k)
  show ?case
  proof (cases v)
    case (VRef c)
    with Suc.prems have c: "c \<in> dom m" by simp
    with all have cp: "copied h H m c" by blast
    then have items: "dict_at H (the (m c)) = map (\<lambda>(k, x). (k, renamed m x)) (dict_at h c)"
      and refs: "\<forall>k' c'. (k', VRef c') \<in> set (dict_at h c) \<longrightarrow> c' \<in> dom m"
      by (simp_all add: copied_def)
    have "map (\<lambda>(k', x). (k', contents k H x)) (map (\<lambda>(k, x). (k, renamed m x)) (dict_at h c)) =
          map (\<lambda>(k', x). (k', contents k h x)) (dict_at h c)"
      unfolding map_map
    proof (rule map_cong [OF refl])
      fix kx assume kx: "kx \<in> set (dict_at h c)"
      obtain k' x where p: "kx = (k', x)" by (cases kx)
      with kx refs have "\<forall>c'. x = VRef c' \<longrightarrow> c' \<in> dom m" by blast
      from Suc.IH [OF this] p
      show "((\<lambda>(k', x). (k', contents k H x)) \<circ> (\<lambda>(k, x). (k, renamed m x))) kx =
            (case kx of (k', x) \<Rightarrow> (k', contents k h x))"
        by simp
    qed
    with items VRef show ?thesis by simp
  qed simp_all
qed

lemma renamed_ref:
  "renamed m x = VRef c \<Longrightarrow> \<exists>c'. x = VRef c' \<and> c = the (m c')"
  by (cases x) auto

lemma reachable_copies:
  assumes all: "\<forall>a\<in>dom m. copied h H m a" and r: "m d = Some r"
  shows "reachable H r b \<Longrightarrow> b \<in> ran m"
proof (induction rule: reachable.induct)
  case reachable_self
  from r show ?case by (auto simp add: ran_def)
next
  case (reachable_step b k c)
  from reachable_step.IH obtain a where a: "m a = Some b" by (auto simp add: ran_def)
  then have "a \<in> dom m" by auto
  with all have "copied h H m a" by blast
  with a have items: "dict_at H b = map (\<lambda>(k, x). (k, renamed m x)) (dict_at h a)"
    and refs: "\<forall>k' c'. (k', VRef c') \<in> set (dict_at h a) \<longrightarrow> c' \<in> dom m"
    by (simp_all add: copied_def)
  from reachable_step.hyps(2) items obtain x where
    x: "(k, x) \<in> set (dict_at h a)" "renamed m x = VRef c" by auto
  from renamed_ref [OF x(2)] obtain c' where c': "x = VRef c'" "c = the (m c')" by blast
  with x(1) refs have "c' \<in> dom m" by blast
  with c'(2) show ?case by (auto simp add: ran_def)
qed

text \<open>
  Claim C10. Let \<open>d\<close> be a dictionary of a well-formed heap, and let the second argument be
  falsy: \<^verbatim>\<open>None\<close>, or an empty dictionary of the heap. Whenever the recursion limit exceeds
  the number of dictionaries in the heap, \<^verbatim>\<open>merge_dicts(d, md)\<close> returns a dictionary \<open>r\<close>
  such that: no dictionary that existed before the call has changed, \<open>d\<close> included; \<open>r\<close>
  reads like \<open>d\<close> down to every depth, so the two are equal; and every dictionary that can
  be reached from \<open>r\<close>, \<open>r\<close> itself included, is a new one, so the result shares no
  dictionary with \<open>d\<close>.
\<close>

theorem C10_merge_with_falsy_is_deep_copy:
  assumes "wf_heap h" and "d < length h"
    and "falsy h md" and "\<forall>e. md = Some e \<longrightarrow> e < length h"
    and "length h < n"
  shows "\<exists>h' r. merge_dicts n h [Some d, md] = (h', Inr (VRef r)) \<and>
           unchanged h h' \<and>
           (\<forall>k. contents k h' (VRef r) = contents k h (VRef d)) \<and>
           (\<forall>b. reachable h' r b \<longrightarrow> length h \<le> b \<and> b < length h')"
proof -
  from assms(5) obtain n' where n: "n = Suc n'" and fuel: "length h \<le> n'"
    by (cases n) simp_all
  let ?y = "length h"
  from deepcopy_top [OF assms(1,2) fuel] obtain h1 m' where
    dc: "deepcopy n' h Map.empty (VRef d) = (h1, m', Inr (VRef ?y))"
    and u1: "unchanged h h1" and md: "m' d = Some ?y"
    and cps: "\<forall>a\<in>dom m'. length h \<le> the (m' a) \<and> the (m' a) < length h1 \<and> copied h h1 m' a"
    by blast
  let ?h' = "h1 @ [[]]"
  have "falsy h1 md"
  proof (cases md)
    case None
    then show ?thesis by simp
  next
    case (Some e)
    with assms(4) have "e < length h" by simp
    with u1 have "dict_at h1 e = dict_at h e" by (rule dict_at_unchanged)
    with assms(3) Some show ?thesis by simp
  qed
  then have oe: "or_empty h1 md = (?h', length h1)"
    by (cases md) (simp_all add: or_empty_def alloc_def)
  have e: "dict_at ?h' (length h1) = []" by (simp add: dict_at_def)
  have ma: "merge_args n' h1 (VRef ?y) [md] = (?h', Inr (VRef ?y))"
    by (simp add: oe e)
  have run: "merge_dicts n h [Some d, md] = (?h', Inr (VRef ?y))"
    using n dc ma by simp
  have u: "unchanged h ?h'" using u1 unchanged_append by (rule unchanged_trans)
  have all: "\<forall>a\<in>dom m'. copied h ?h' m' a"
  proof
    fix a assume "a \<in> dom m'"
    with cps have "copied h h1 m' a" "the (m' a) < length h1" by simp_all
    then show "copied h ?h' m' a" using unchanged_append by (rule copied_extend)
  qed
  from md have "\<forall>c. VRef d = VRef c \<longrightarrow> c \<in> dom m'" by auto
  from contents_copied [OF all this] md
  have eq: "\<forall>k. contents k ?h' (VRef ?y) = contents k h (VRef d)" by simp
  have fresh: "\<forall>b. reachable ?h' ?y b \<longrightarrow> length h \<le> b \<and> b < length ?h'"
  proof (intro allI impI)
    fix b assume "reachable ?h' ?y b"
    from reachable_copies [OF all md this] obtain a where "m' a = Some b"
      by (auto simp add: ran_def)
    with cps have "length h \<le> b \<and> b < length h1" by force
    then show "length h \<le> b \<and> b < length ?h'" by simp
  qed
  from run u eq fresh show ?thesis by blast
qed

theorem C10_witness:
  "merge_dicts 4 nested [Some 0, None] =
     (nested @
      [[(KStr ''model'', VRef 4), (KStr ''seed'', VInt 42)],
       [(KStr ''lr'', VInt 3), (KStr ''parent'', VRef 3)],
       []],
      Inr (VRef 3)) \<and>
   merge_dicts 4 nested [Some 0, Some 2] = merge_dicts 4 nested [Some 0, None] \<and>
   unchanged nested (fst (merge_dicts 4 nested [Some 0, None])) \<and>
   contents 3 (fst (merge_dicts 4 nested [Some 0, None])) (VRef 3) = contents 3 nested (VRef 0)"
proof -
  have h: "wf_heap nested" "0 < length nested" "falsy nested None"
    "\<forall>e. (None :: addr option) = Some e \<longrightarrow> e < length nested" "length nested < 4"
    by (simp_all add: nested_def wf_heap_def wf_dict_def)
  have run: "merge_dicts 4 nested [Some 0, None] =
     (nested @
      [[(KStr ''model'', VRef 4), (KStr ''seed'', VInt 42)],
       [(KStr ''lr'', VInt 3), (KStr ''parent'', VRef 3)],
       []],
      Inr (VRef 3))"
    by (simp add: nested_def numeral_nat dict_at_def setitem_def or_empty_def alloc_def)
  have run2: "merge_dicts 4 nested [Some 0, Some 2] = merge_dicts 4 nested [Some 0, None]"
    by (simp add: nested_def numeral_nat dict_at_def setitem_def or_empty_def alloc_def)
  from C10_merge_with_falsy_is_deep_copy [OF h] obtain h' r where
    "merge_dicts 4 nested [Some 0, None] = (h', Inr (VRef r))" "unchanged nested h'"
    "\<forall>k. contents k h' (VRef r) = contents k nested (VRef 0)"
    by blast
  with run run2 show ?thesis by auto
qed
end
